theory Spec2Isabelle
  imports Main "HOL-Library.Word"
begin

section \<open>The LIS engine (internal/lis)\<close>

subsection \<open>JavaScript values and arrays\<close>

text \<open>
  The cells of the working arrays hold numbers, and a read of a hole, of a negative index
  or past the end yields \<open>undefined\<close>. The input sequence is a list of integers; the value
  \<open>-1\<close> marks a position to skip.
\<close>

datatype jsval = Undefined | Number int

text \<open>\<open>seq[k]\<close> on the input sequence, for an index expression \<open>k\<close>.\<close>

definition seq_at :: "int list \<Rightarrow> jsval \<Rightarrow> jsval" where
  "seq_at seq k =
     (case k of
        Undefined \<Rightarrow> Undefined
      | Number j \<Rightarrow> if 0 \<le> j \<and> j < int (length seq) then Number (seq ! nat j) else Undefined)"

text \<open>\<open>xs[k]\<close> on a growable array (\<open>number[]\<close>, holes are \<open>Undefined\<close>).\<close>

definition arr_at :: "jsval list \<Rightarrow> jsval \<Rightarrow> jsval" where
  "arr_at xs k =
     (case k of
        Undefined \<Rightarrow> Undefined
      | Number j \<Rightarrow> if 0 \<le> j \<and> j < int (length xs) then xs ! nat j else Undefined)"

text \<open>\<open>xs[i] = v\<close> on a growable array: a write past the end extends the array with holes.\<close>

definition arr_set :: "jsval list \<Rightarrow> nat \<Rightarrow> jsval \<Rightarrow> jsval list" where
  "arr_set xs i v =
     (if i < length xs then xs[i := v]
      else xs @ replicate (i - length xs) Undefined @ [v])"

text \<open>\<open>a < num\<close> for a number \<open>num\<close>: \<open>undefined < num\<close> is false.\<close>

definition js_lt :: "jsval \<Rightarrow> int \<Rightarrow> bool" where
  "js_lt a num = (case a of Undefined \<Rightarrow> False | Number x \<Rightarrow> x < num)"

text \<open>\<open>x >>> 1\<close>: the operand is first reduced to an unsigned 32-bit integer.\<close>

definition ushr1 :: "nat \<Rightarrow> nat" where
  "ushr1 x = (x mod 2 ^ 32) div 2"

subsection \<open>Typed arrays (\<open>Uint32Array\<close>)\<close>

type_synonym u32array = "32 word list"

definition SENTINEL :: int where
  "SENTINEL = 0xFFFFFFFF"

text \<open>An element read of a typed array: out of range yields \<open>undefined\<close>.\<close>

definition u32_at :: "u32array \<Rightarrow> jsval \<Rightarrow> jsval" where
  "u32_at xs k =
     (case k of
        Undefined \<Rightarrow> Undefined
      | Number j \<Rightarrow> if 0 \<le> j \<and> j < int (length xs) then Number (uint (xs ! nat j)) else Undefined)"

text \<open>
  An element write of a typed array: the value is converted modulo \<open>2^32\<close>
  (\<open>undefined\<close> becomes 0), and a write out of range is ignored.
\<close>

definition to_uint32 :: "jsval \<Rightarrow> 32 word" where
  "to_uint32 v = (case v of Undefined \<Rightarrow> 0 | Number x \<Rightarrow> word_of_int x)"

definition u32_set :: "u32array \<Rightarrow> nat \<Rightarrow> jsval \<Rightarrow> u32array" where
  "u32_set xs i v = (if i < length xs then xs[i := to_uint32 v] else xs)"

subsection \<open>The binary search\<close>

text \<open>
  The inner \<open>while (lo < hi)\<close> loop, the same in both implementations; \<open>tails_at mid\<close> is
  the read \<open>tails[mid]\<close> of the implementation's array. The loop need not end when
  \<open>lo + hi\<close> leaves the unsigned 32-bit range, so the result is optional.
\<close>

partial_function (option) bsearch ::
  "int list \<Rightarrow> (nat \<Rightarrow> jsval) \<Rightarrow> int \<Rightarrow> nat \<Rightarrow> nat \<Rightarrow> nat option" where
  "bsearch seq tails_at num lo hi =
     (if lo < hi then
        (let mid = ushr1 (lo + hi) in
         if js_lt (seq_at seq (tails_at mid)) num
         then bsearch seq tails_at num (mid + 1) hi
         else bsearch seq tails_at num lo mid)
      else Some lo)"

subsection \<open>\<open>lis_small\<close>\<close>

type_synonym small_state = "jsval list \<times> jsval list \<times> nat"

text \<open>One iteration of the main loop, on \<open>(predecessors, tails, len)\<close>.\<close>

definition small_step :: "int list \<Rightarrow> nat \<Rightarrow> small_state \<Rightarrow> small_state option" where
  "small_step seq i st =
     (case st of (predecessors, tails, len) \<Rightarrow>
        let num = seq ! i in
        if num = - 1 then Some (arr_set predecessors i (Number (- 1)), tails, len)
        else
          (case bsearch seq (\<lambda>mid. arr_at tails (Number (int mid))) num 0 len of
             None \<Rightarrow> None
           | Some lo \<Rightarrow>
               let p1 = arr_set predecessors i
                          (case arr_at tails (Number (int lo - 1)) of
                             Undefined \<Rightarrow> Number (- 1)
                           | Number t \<Rightarrow> Number t);
                   p2 = (if lo = 0 then arr_set p1 i (Number (- 1)) else p1);
                   tails' = arr_set tails lo (Number (int i));
                   len' = (if lo = len then len + 1 else len)
               in Some (p2, tails', len')))"

function small_loop :: "int list \<Rightarrow> nat \<Rightarrow> small_state \<Rightarrow> small_state option" where
  "small_loop seq i st =
     (if i < length seq then
        (case small_step seq i st of
           None \<Rightarrow> None
         | Some st' \<Rightarrow> small_loop seq (i + 1) st')
      else Some st)"
  by pat_completeness auto
termination
  by (relation "measure (\<lambda>(seq, i, st). length seq - i)") auto

text \<open>
  The reconstruction loop \<open>for (i = len - 1; i >= 0; i--)\<close>; the first argument of
  \<open>small_rebuild\<close> is \<open>i + 1\<close>.
\<close>

fun small_rebuild :: "jsval list \<Rightarrow> nat \<Rightarrow> jsval \<Rightarrow> jsval list \<Rightarrow> jsval list" where
  "small_rebuild predecessors 0 k lis = lis"
| "small_rebuild predecessors (Suc i) k lis =
     small_rebuild predecessors i (arr_at predecessors k) (arr_set lis i k)"

definition lis_small :: "int list \<Rightarrow> jsval list option" where
  "lis_small seq =
     (let n = length seq in
      if n = 0 then Some []
      else if n = 1 then Some (if seq ! 0 = - 1 then [] else [Number 0])
      else
        (case small_loop seq 0 (replicate n Undefined, replicate n Undefined, 0) of
           None \<Rightarrow> None
         | Some (predecessors, tails, len) \<Rightarrow>
             if len = 0 then Some []
             else Some (small_rebuild predecessors len
                          (arr_at tails (Number (int len - 1)))
                          (replicate len Undefined))))"

subsection \<open>\<open>lis_large\<close>\<close>

type_synonym large_state = "u32array \<times> u32array \<times> nat"

definition large_step :: "int list \<Rightarrow> nat \<Rightarrow> large_state \<Rightarrow> large_state option" where
  "large_step seq i st =
     (case st of (predecessors, tails, len) \<Rightarrow>
        let num = seq ! i in
        if num = - 1 then Some (u32_set predecessors i (Number SENTINEL), tails, len)
        else
          (case bsearch seq (\<lambda>mid. u32_at tails (Number (int mid))) num 0 len of
             None \<Rightarrow> None
           | Some lo \<Rightarrow>
               let p = (if lo > 0
                        then u32_set predecessors i (u32_at tails (Number (int lo - 1)))
                        else u32_set predecessors i (Number SENTINEL));
                   tails' = u32_set tails lo (Number (int i));
                   len' = (if lo = len then len + 1 else len)
               in Some (p, tails', len')))"

function large_loop :: "int list \<Rightarrow> nat \<Rightarrow> large_state \<Rightarrow> large_state option" where
  "large_loop seq i st =
     (if i < length seq then
        (case large_step seq i st of
           None \<Rightarrow> None
         | Some st' \<Rightarrow> large_loop seq (i + 1) st')
      else Some st)"
  by pat_completeness auto
termination
  by (relation "measure (\<lambda>(seq, i, st). length seq - i)") auto

fun large_rebuild :: "u32array \<Rightarrow> nat \<Rightarrow> jsval \<Rightarrow> jsval list \<Rightarrow> jsval list" where
  "large_rebuild predecessors 0 k lis = lis"
| "large_rebuild predecessors (Suc i) k lis =
     (let lis' = arr_set lis i k;
          pred = u32_at predecessors k;
          k' = (if pred \<noteq> Number SENTINEL then pred else Number (- 1))
      in large_rebuild predecessors i k' lis')"

text \<open>
  The work buffer is used when it is given and holds at least \<open>2 * n\<close> cells; otherwise a
  fresh zero-filled buffer is allocated. \<open>predecessors\<close> and \<open>tails\<close> are the disjoint
  views \<open>subarray(0, n)\<close> and \<open>subarray(n, 2 * n)\<close> of it.
\<close>

definition lis_large :: "int list \<Rightarrow> u32array option \<Rightarrow> jsval list option" where
  "lis_large seq workBuffer =
     (let n = length seq in
      if n = 0 then Some []
      else if n = 1 then Some (if seq ! 0 = - 1 then [] else [Number 0])
      else
        (let needsSize = 2 * n;
             buffer = (case workBuffer of
                         None \<Rightarrow> replicate needsSize 0
                       | Some wb \<Rightarrow> if length wb \<ge> needsSize then wb
                                    else replicate needsSize 0);
             predecessors = take n buffer;
             tails = take n (drop n buffer)
         in case large_loop seq 0 (predecessors, tails, 0) of
              None \<Rightarrow> None
            | Some (predecessors', tails', len) \<Rightarrow>
                if len = 0 then Some []
                else Some (large_rebuild predecessors' len
                             (u32_at tails' (Number (int len - 1)))
                             (replicate len Undefined))))"

subsection \<open>The dispatcher\<close>

text \<open>
  What a caller can pass as \<open>seq\<close>: \<open>null\<close>, \<open>undefined\<close>, a value whose \<open>length\<close> is not of
  type number (missing included), a value whose \<open>length\<close> is \<open>NaN\<close> or infinite, or an
  array of numbers.
\<close>

datatype seq_arg =
    ArgNull
  | ArgUndefined
  | ArgNoNumericLength
  | ArgNaNLength
  | ArgInfiniteLength
  | ArgArray "int list"

definition longestIncreasingSubsequence ::
  "nat \<Rightarrow> seq_arg \<Rightarrow> u32array option \<Rightarrow> jsval list option" where
  "longestIncreasingSubsequence smallArrayThreshold seq workBuffer =
     (case seq of
        ArgArray xs \<Rightarrow>
          (let n = length xs in
           if n = 0 then Some []
           else if n < smallArrayThreshold then lis_small xs
           else lis_large xs workBuffer)
      | _ \<Rightarrow> Some [])"

definition malformed :: "seq_arg \<Rightarrow> bool" where
  "malformed seq = (case seq of ArgArray xs \<Rightarrow> False | _ \<Rightarrow> True)"

section \<open>Ownership scopes (lifecycle/lifecycle.ts)\<close>

text \<open>
  User code that runs inside a scope (the body given to \<open>createRoot\<close>, a registered
  cleanup) is a straight-line program over the scope interface: it returns, throws,
  registers a cleanup and goes on, or creates a nested root and goes on.
\<close>

datatype code =
    Return
  | Throw
  | OnCleanup code code
  | CreateRoot code code

record owner =
  parent :: "nat option"
  cleanups :: "code list"

text \<open>
  Owners live in a store addressed by allocation number; \<open>next_owner\<close> is the next free
  one. \<open>called\<close> is a log of the cleanup functions that \<open>dispose\<close> has invoked, kept for
  stating what ran and in which order; nothing reads it.
\<close>

record lstate =
  owners :: "nat \<Rightarrow> owner"
  next_owner :: nat
  currentOwner :: "nat option"
  called :: "code list"

definition onCleanup :: "code \<Rightarrow> lstate \<Rightarrow> lstate" where
  "onCleanup fn st =
     (case currentOwner st of
        None \<Rightarrow> st
      | Some ow \<Rightarrow>
          st\<lparr>owners := (owners st)(ow := (owners st ow)\<lparr>cleanups := cleanups (owners st ow) @ [fn]\<rparr>)\<rparr>)"

definition hasOwner :: "lstate \<Rightarrow> bool" where
  "hasOwner st = (currentOwner st \<noteq> None)"

text \<open>
  Running user code yields whether it threw and the state it left. \<open>createRoot\<close> also
  yields the new root, which stands for the disposer it returns; the \<open>finally\<close> block
  restores the owner on both exits.
\<close>

fun exec :: "code \<Rightarrow> lstate \<Rightarrow> bool \<times> lstate"
  and createRoot :: "code \<Rightarrow> lstate \<Rightarrow> bool \<times> nat \<times> lstate" where
  "exec Return st = (False, st)"
| "exec Throw st = (True, st)"
| "exec (OnCleanup fn k) st = exec k (onCleanup fn st)"
| "exec (CreateRoot fn k) st =
     (case createRoot fn st of
        (True, root, st') \<Rightarrow> (True, st')
      | (False, root, st') \<Rightarrow> exec k st')"
| "createRoot fn st =
     (let parentOwner = currentOwner st;
          root = next_owner st;
          st1 = st\<lparr>owners := (owners st)(root := \<lparr>parent = parentOwner, cleanups = []\<rparr>),
                   next_owner := root + 1,
                   currentOwner := Some root\<rparr>;
          (threw, st2) = exec fn st1
      in (threw, root, st2\<lparr>currentOwner := parentOwner\<rparr>))"

text \<open>
  The loop \<open>for (i = root.cleanups.length - 1; i >= 0; i--) root.cleanups[i]()\<close>; the second
  argument of \<open>run_cleanups\<close> is \<open>i + 1\<close>. The list is read again at every iteration; calling
  a missing entry raises a TypeError.
\<close>

fun run_cleanups :: "nat \<Rightarrow> nat \<Rightarrow> lstate \<Rightarrow> bool \<times> lstate" where
  "run_cleanups root 0 st = (False, st)"
| "run_cleanups root (Suc i) st =
     (if i < length (cleanups (owners st root)) then
        (let fn = cleanups (owners st root) ! i in
         case exec fn (st\<lparr>called := called st @ [fn]\<rparr>) of
           (True, st') \<Rightarrow> (True, st')
         | (False, st') \<Rightarrow> run_cleanups root i st')
      else (True, st))"

definition dispose :: "nat \<Rightarrow> lstate \<Rightarrow> bool \<times> lstate" where
  "dispose root st =
     (let prevOwner = currentOwner st;
          st1 = st\<lparr>currentOwner := Some root\<rparr>;
          (threw, st2) = run_cleanups root (length (cleanups (owners st1 root))) st1;
          st3 = (if threw then st2
                 else st2\<lparr>owners := (owners st2)(root := (owners st2 root)\<lparr>cleanups := []\<rparr>)\<rparr>)
      in (threw, st3\<lparr>currentOwner := prevOwner\<rparr>))"

definition no_owners :: lstate where
  "no_owners = \<lparr>owners = (\<lambda>_. \<lparr>parent = None, cleanups = []\<rparr>), next_owner = 0,
                 currentOwner = None, called = []\<rparr>"

section \<open>Signals, effects and the scheduler\<close>

text \<open>
  A JavaScript \<open>Set\<close> keeps its members in insertion order and without duplicates:
  it is a list, \<open>add\<close> appends a new member, \<open>delete\<close> removes it.
\<close>

definition set_add :: "'a \<Rightarrow> 'a list \<Rightarrow> 'a list" where
  "set_add x xs = (if x \<in> set xs then xs else xs @ [x])"

definition set_delete :: "'a \<Rightarrow> 'a list \<Rightarrow> 'a list" where
  "set_delete x xs = removeAll x xs"

text \<open>
  Signals and effects are numbered. A signal is its closure variables \<open>value\<close> and
  \<open>subscribers\<close>; an effect (a \<open>Subscriber\<close>) has its \<open>dependencies\<close>, a set of subscriber
  sets, each named here by the signal that owns it. \<open>microtasks\<close> counts the flushes
  queued with \<open>queueMicrotask\<close>. \<open>executed\<close> is a log of the calls of \<open>effect.execute()\<close>,
  kept for stating what ran; nothing reads it.
\<close>

record 'v rstate =
  sig_value :: "nat \<Rightarrow> 'v"
  subscribers :: "nat \<Rightarrow> nat list"
  dependencies :: "nat \<Rightarrow> nat list"
  effectStack :: "nat list"
  dirtyEffects :: "nat list"
  isBatching :: bool
  microtasks :: nat
  executed :: "nat list"

text \<open>
  The body of an effect is a program over the signal interface: it ends, throws, reads a
  signal and goes on with the value read, or writes a signal and goes on. Values are
  compared by HOL equality, which stands for \<open>Object.is\<close>.
\<close>

datatype 'v prog =
    Done
  | Fail
  | Read nat "'v \<Rightarrow> 'v prog"
  | Write nat 'v "'v prog"

definition flushQueue :: "'v rstate \<Rightarrow> 'v rstate" where
  "flushQueue st =
     (if isBatching st then st
      else st\<lparr>isBatching := True, microtasks := microtasks st + 1\<rparr>)"

definition cleanup :: "nat \<Rightarrow> 'v rstate \<Rightarrow> 'v rstate" where
  "cleanup effect st =
     st\<lparr>subscribers :=
          fold (\<lambda>dependency subs. subs(dependency := set_delete effect (subs dependency)))
            (dependencies st effect) (subscribers st),
        dependencies := (dependencies st)(effect := [])\<rparr>"

definition read :: "nat \<Rightarrow> 'v rstate \<Rightarrow> 'v \<times> 'v rstate" where
  "read s st =
     (if effectStack st = [] then (sig_value st s, st)
      else
        (let currentEffect = last (effectStack st) in
         (sig_value st s,
          st\<lparr>subscribers := (subscribers st)(s := set_add currentEffect (subscribers st s)),
             dependencies := (dependencies st)
               (currentEffect := set_add s (dependencies st currentEffect))\<rparr>)))"

text \<open>The setter \<open>write\<close> of a signal.\<close>

definition write_signal :: "nat \<Rightarrow> 'v \<Rightarrow> 'v rstate \<Rightarrow> 'v rstate" where
  "write_signal s newValue st =
     (if sig_value st s = newValue then st
      else
        (let st1 = st\<lparr>sig_value := (sig_value st)(s := newValue)\<rparr>;
             st2 = st1\<lparr>dirtyEffects := fold set_add (subscribers st1 s) (dirtyEffects st1)\<rparr>
         in flushQueue st2))"

text \<open>Running a body yields whether it threw and the state it left.\<close>

primrec run_body :: "'v prog \<Rightarrow> 'v rstate \<Rightarrow> bool \<times> 'v rstate" where
  "run_body Done st = (False, st)"
| "run_body Fail st = (True, st)"
| "run_body (Read s k) st = run_body (k (fst (read s st))) (snd (read s st))"
| "run_body (Write s v p) st = run_body p (write_signal s v st)"

text \<open>
  \<open>effect.execute()\<close> for the effect \<open>e\<close> whose function is \<open>bodies e\<close>: old dependencies
  are cleaned up, the effect is pushed, the body runs, and the \<open>finally\<close> block pops the
  stack on both exits.
\<close>

definition execute :: "(nat \<Rightarrow> 'v prog) \<Rightarrow> nat \<Rightarrow> 'v rstate \<Rightarrow> bool \<times> 'v rstate" where
  "execute bodies e st =
     (let st1 = cleanup e st;
          st2 = st1\<lparr>effectStack := effectStack st1 @ [e], executed := executed st1 @ [e]\<rparr>;
          (threw, st3) = run_body (bodies e) st2
      in (threw, st3\<lparr>effectStack := butlast (effectStack st3)\<rparr>))"

text \<open>
  \<open>dirtyEffects.forEach((effect) => effect.execute())\<close>: the members are visited in
  insertion order, those added during the iteration included; an exception ends the
  iteration. The loop need not end, so the result is optional.
\<close>

partial_function (option) flush_loop ::
  "(nat \<Rightarrow> 'v prog) \<Rightarrow> nat \<Rightarrow> 'v rstate \<Rightarrow> (bool \<times> 'v rstate) option" where
  "flush_loop bodies i st =
     (if i < length (dirtyEffects st) then
        (let r = execute bodies (dirtyEffects st ! i) st in
         if fst r then Some (True, snd r)
         else flush_loop bodies (i + 1) (snd r))
      else Some (False, st))"

text \<open>The queued microtask; the \<open>finally\<close> block clears the set and the flag.\<close>

definition flush :: "(nat \<Rightarrow> 'v prog) \<Rightarrow> 'v rstate \<Rightarrow> (bool \<times> 'v rstate) option" where
  "flush bodies st =
     (case flush_loop bodies 0 st of
        None \<Rightarrow> None
      | Some (threw, st') \<Rightarrow> Some (threw, st'\<lparr>dirtyEffects := [], isBatching := False\<rparr>))"

definition run_microtask :: "(nat \<Rightarrow> 'v prog) \<Rightarrow> 'v rstate \<Rightarrow> (bool \<times> 'v rstate) option" where
  "run_microtask bodies st =
     (if microtasks st = 0 then Some (False, st)
      else flush bodies (st\<lparr>microtasks := microtasks st - 1\<rparr>))"

text \<open>
  The cells a body reads when it runs from the signal values \<open>vals\<close>, in the order of the
  reads; a write changes what the reads after it see.
\<close>

primrec cells_read :: "'v prog \<Rightarrow> (nat \<Rightarrow> 'v) \<Rightarrow> nat list" where
  "cells_read Done vals = []"
| "cells_read Fail vals = []"
| "cells_read (Read s k) vals = s # cells_read (k (vals s)) vals"
| "cells_read (Write s v p) vals = cells_read p (vals(s := v))"

text \<open>
  What the surrounding program can do between two computation bodies: read or write a
  signal, create an effect (which executes it once), call an effect's disposer, or let the
  queued microtask run. An exception of a body ends the action that ran it.
\<close>

datatype 'v action =
    DoRead nat
  | DoWrite nat 'v
  | DoCreateEffect nat
  | DoDispose nat
  | DoMicrotask

definition perform :: "(nat \<Rightarrow> 'v prog) \<Rightarrow> 'v action \<Rightarrow> 'v rstate \<Rightarrow> 'v rstate option" where
  "perform bodies a st =
     (case a of
        DoRead s \<Rightarrow> Some (snd (read s st))
      | DoWrite s v \<Rightarrow> Some (write_signal s v st)
      | DoCreateEffect e \<Rightarrow> Some (snd (execute bodies e st))
      | DoDispose e \<Rightarrow> Some (cleanup e st)
      | DoMicrotask \<Rightarrow> map_option snd (run_microtask bodies st))"

fun perform_all :: "(nat \<Rightarrow> 'v prog) \<Rightarrow> 'v action list \<Rightarrow> 'v rstate \<Rightarrow> 'v rstate option" where
  "perform_all bodies [] st = Some st"
| "perform_all bodies (a # as) st =
     (case perform bodies a st of
        None \<Rightarrow> None
      | Some st' \<Rightarrow> perform_all bodies as st')"

text \<open>The state of a fresh module: signals hold \<open>vals\<close>, nothing is subscribed or queued.\<close>

definition fresh :: "(nat \<Rightarrow> 'v) \<Rightarrow> 'v rstate" where
  "fresh vals =
     \<lparr>sig_value = vals, subscribers = (\<lambda>_. []), dependencies = (\<lambda>_. []),
      effectStack = [], dirtyEffects = [], isBatching = False, microtasks = 0,
      executed = []\<rparr>"

section \<open>The keyed reconciler: the reorder pass of \<open>For\<close>\<close>

text \<open>
  The children of the parent node are a list; every item has one node, named by its key.
  \<open>parent.insertBefore(node, ref)\<close> takes \<open>node\<close> out of the children, if it is there, and
  puts it before \<open>ref\<close>; it raises (\<open>None\<close>) when \<open>ref\<close> is not a child.
\<close>

datatype 'k node = EndMarker | ItemNode 'k

definition insertBefore :: "'a \<Rightarrow> 'a \<Rightarrow> 'a list \<Rightarrow> 'a list option" where
  "insertBefore node ref children =
     (if ref \<notin> set children then None
      else if node = ref then Some children
      else
        (let rest = removeAll node children
         in Some (takeWhile (\<lambda>c. c \<noteq> ref) rest @ node # dropWhile (\<lambda>c. c \<noteq> ref) rest)))"

text \<open>\<open>oldMap.get(node)\<close>: the position of the node in the old map's insertion order.\<close>

fun position :: "'a \<Rightarrow> 'a list \<Rightarrow> nat option" where
  "position x [] = None"
| "position x (y # ys) = (if x = y then Some 0 else map_option Suc (position x ys))"

datatype 'k dom_op = Inserted 'k | Moved 'k

text \<open>
  The backward loop \<open>for (i = newNodes.length - 1; i >= 0; i--)\<close>; the fourth argument of
  \<open>reorder_loop\<close> is \<open>i + 1\<close>. The result is the children of the parent and the log of the
  \<open>insertBefore\<close> calls, new nodes and moved nodes apart.
\<close>

fun reorder_loop ::
  "'k list \<Rightarrow> nat option list \<Rightarrow> jsval list \<Rightarrow> nat \<Rightarrow> int \<Rightarrow> 'k node \<Rightarrow>
   'k node list \<Rightarrow> 'k dom_op list \<Rightarrow> ('k node list \<times> 'k dom_op list) option" where
  "reorder_loop newKeys seq lis 0 cur next children ops = Some (children, ops)"
| "reorder_loop newKeys seq lis (Suc i) cur next children ops =
     (let node = ItemNode (newKeys ! i) in
      if seq ! i = None then
        (case insertBefore node next children of
           None \<Rightarrow> None
         | Some children' \<Rightarrow>
             reorder_loop newKeys seq lis i cur node children' (ops @ [Inserted (newKeys ! i)]))
      else if cur < 0 \<or> Number (int i) \<noteq> arr_at lis (Number cur) then
        (case insertBefore node next children of
           None \<Rightarrow> None
         | Some children' \<Rightarrow>
             reorder_loop newKeys seq lis i cur node children' (ops @ [Moved (newKeys ! i)]))
      else reorder_loop newKeys seq lis i (cur - 1) node children ops)"

text \<open>
  Pass 3 of an update, from the keys of the old map in insertion order and the keys of
  the new items in order. \<open>None\<close> stands for an exception or for a LIS that does not return.
\<close>

definition reorder_seq :: "'k list \<Rightarrow> 'k list \<Rightarrow> int list" where
  "reorder_seq oldKeys newKeys =
     map (\<lambda>k. case position k oldKeys of None \<Rightarrow> - 1 | Some i \<Rightarrow> int i) newKeys"

definition reorder_pass ::
  "nat \<Rightarrow> 'k list \<Rightarrow> 'k list \<Rightarrow> 'k node list \<Rightarrow> ('k node list \<times> 'k dom_op list) option" where
  "reorder_pass smallArrayThreshold oldKeys newKeys children =
     (if length newKeys > 0 then
        (let seq = map (\<lambda>k. position k oldKeys) newKeys in
         case longestIncreasingSubsequence smallArrayThreshold
                (ArgArray (reorder_seq oldKeys newKeys)) None of
           None \<Rightarrow> None
         | Some lis \<Rightarrow>
             reorder_loop newKeys seq lis (length newKeys) (int (length lis) - 1)
               EndMarker children [])
      else Some (children, []))"

section \<open>Auxiliary notions\<close>

text \<open>
  User code only adds to the store of owners: it allocates new owners and appends to
  the cleanup lists of those that exist.
\<close>

definition grows :: "lstate \<Rightarrow> lstate \<Rightarrow> bool" where
  "grows st st' \<longleftrightarrow>
     next_owner st \<le> next_owner st' \<and>
     (\<forall>ow < next_owner st. \<exists>ext. cleanups (owners st' ow) = cleanups (owners st ow) @ ext)"

text \<open>
  A root whose body registered two cleanups, the second of which throws:
  \<open>createRoot(() => { onCleanup(() => {}); onCleanup(() => { throw ... }) })\<close>.
\<close>

definition two_cleanups :: lstate where
  "two_cleanups = snd (snd (createRoot (OnCleanup Return (OnCleanup Throw Return)) no_owners))"

text \<open>
  A root whose body registered two cleanups that return; the second registers a further
  cleanup while it runs.
\<close>

definition quiet_cleanups :: lstate where
  "quiet_cleanups =
     snd (snd (createRoot (OnCleanup Return (OnCleanup (OnCleanup Return Return) Return))
                 no_owners))"

text \<open>
  The subscription relation is symmetric: an effect is in a signal's subscriber set
  exactly when that set is among the effect's dependencies.
\<close>

definition sym :: "'v rstate \<Rightarrow> bool" where
  "sym st \<longleftrightarrow> (\<forall>e s. e \<in> set (subscribers st s) \<longleftrightarrow> s \<in> set (dependencies st e))"

text \<open>
  What running user code may do to the scheduler: the dirty set only gains members at its
  end and stays free of duplicates, a flush in progress stays in progress with no further
  microtask queued, and no effect is executed.
\<close>

definition absorbs :: "'v rstate \<Rightarrow> 'v rstate \<Rightarrow> bool" where
  "absorbs st st' \<longleftrightarrow>
     (\<exists>ext. dirtyEffects st' = dirtyEffects st @ ext) \<and>
     (distinct (dirtyEffects st) \<longrightarrow> distinct (dirtyEffects st')) \<and>
     (isBatching st \<longrightarrow> isBatching st' \<and> microtasks st' = microtasks st) \<and>
     executed st' = executed st"

text \<open>Every effect that is subscribed somewhere or marked dirty is in \<open>U\<close>.\<close>

definition within :: "nat set \<Rightarrow> 'v rstate \<Rightarrow> bool" where
  "within U st \<longleftrightarrow> (\<forall>s. set (subscribers st s) \<subseteq> U) \<and> set (dirtyEffects st) \<subseteq> U"

text \<open>A sequence of writes \<open>set_1(v_1); ...; set_n(v_n)\<close> made one after the other.\<close>

fun write_all :: "(nat \<times> 'v) list \<Rightarrow> 'v rstate \<Rightarrow> 'v rstate" where
  "write_all [] st = st"
| "write_all ((s, v) # ws) st = write_all ws (write_signal s v st)"

text \<open>
  An effect that reads cell 1 only while the guard, cell 0, is true; the state is the
  one after its first run with the guard true, with the guard then set to false.
\<close>

definition guard_bodies :: "nat \<Rightarrow> bool prog" where
  "guard_bodies e = Read 0 (\<lambda>g. if g then Read 1 (\<lambda>a. Done) else Done)"

definition guard_state :: "bool rstate" where
  "guard_state =
     (snd (execute guard_bodies 7 (fresh (\<lambda>_. True))))\<lparr>sig_value := (\<lambda>_. True)(0 := False)\<rparr>"

text \<open>
  Effect 1 copies cell 0 to cell 1 and effect 2 reads cell 1; the state is the one
  after both were created.
\<close>

definition chain_bodies :: "nat \<Rightarrow> nat prog" where
  "chain_bodies e =
     (if e = 1 then Read 0 (\<lambda>v. Write 1 v Done)
      else if e = 2 then Read 1 (\<lambda>v. Done)
      else Done)"

definition chain_state :: "nat rstate" where
  "chain_state = snd (execute chain_bodies 2 (snd (execute chain_bodies 1 (fresh (\<lambda>_. 0)))))"

text \<open>
  The states the two examples reach: the guarded effect after the guard was set to false
  and the flush ran; the chain after the writes \<open>set_0(5); set_0(6)\<close> and the flush; and
  the chain at the end of the iteration of a flush begun after \<open>set_0(5)\<close>.
\<close>

definition guard_flushed :: "bool rstate" where
  "guard_flushed =
     \<lparr>sig_value = (\<lambda>_. True)(0 := False), subscribers = (\<lambda>_. [])(1 := [], 0 := [7]),
      dependencies = (\<lambda>_. [])(7 := [0]), effectStack = [], dirtyEffects = [],
      isBatching = False, microtasks = 0, executed = [7, 7]\<rparr>"

definition chain_flushed :: "nat rstate" where
  "chain_flushed =
     \<lparr>sig_value = (\<lambda>_. 0)(0 := 6, 1 := 6), subscribers = (\<lambda>_. [])(0 := [1], 1 := [2]),
      dependencies = (\<lambda>_. [])(1 := [0], 2 := [1]), effectStack = [], dirtyEffects = [],
      isBatching = False, microtasks = 0, executed = [1, 2, 1, 2]\<rparr>"

definition chain_midflush :: "nat rstate" where
  "chain_midflush =
     \<lparr>sig_value = (\<lambda>_. 0)(0 := 5, 1 := 5), subscribers = (\<lambda>_. [])(0 := [1], 1 := [2]),
      dependencies = (\<lambda>_. [])(1 := [0], 2 := [1]), effectStack = [], dirtyEffects = [1, 2],
      isBatching = True, microtasks = 1, executed = [1, 2, 1, 2]\<rparr>"

text \<open>
  A valid subsequence of the first \<open>i\<close> entries of \<open>seq\<close>, given by its indices: the
  indices ascend, none is at or past \<open>i\<close>, none is skip-marked, and the values strictly
  increase.
\<close>

definition incr_subseq :: "int list \<Rightarrow> nat \<Rightarrow> nat list \<Rightarrow> bool" where
  "incr_subseq seq i js \<longleftrightarrow>
     sorted_wrt (<) js \<and> (\<forall>k \<in> set js. k < i \<and> seq ! k \<noteq> - 1) \<and>
     sorted_wrt (<) (map ((!) seq) js)"

text \<open>
  The rest of this section serves the proofs about \<open>lis_small\<close> and \<open>lis_large\<close>: the
  patience algorithm on plain lists, which both implementations are shown to follow.
  \<open>T\<close> lists the indices held in \<open>tails[0 .. len - 1]\<close> and \<open>P\<close> the predecessor of each
  processed index, if it has one. \<open>tail_pos\<close> is the leftmost position whose tail value
  is not below \<open>v\<close>.
\<close>

definition tail_pos :: "int list \<Rightarrow> nat list \<Rightarrow> int \<Rightarrow> nat" where
  "tail_pos seq T v = length (takeWhile (\<lambda>t. seq ! t < v) T)"

type_synonym abs_state = "nat option list \<times> nat list"

definition abs_step :: "int list \<Rightarrow> nat \<Rightarrow> abs_state \<Rightarrow> abs_state" where
  "abs_step seq i a =
     (case a of (P, T) \<Rightarrow>
        if seq ! i = - 1 then (P @ [None], T)
        else
          (let lo = tail_pos seq T (seq ! i)
           in (P @ [if lo = 0 then None else Some (T ! (lo - 1))],
               if lo < length T then T[lo := i] else T @ [i])))"

primrec abs_run :: "int list \<Rightarrow> nat \<Rightarrow> abs_state" where
  "abs_run seq 0 = ([], [])"
| "abs_run seq (Suc i) = abs_step seq i (abs_run seq i)"

text \<open>The last \<open>m\<close> links of the predecessor chain that ends at \<open>k\<close>.\<close>

fun chain :: "nat option list \<Rightarrow> nat \<Rightarrow> nat \<Rightarrow> nat list" where
  "chain P 0 k = []"
| "chain P (Suc m) k = (case P ! k of None \<Rightarrow> [] | Some p \<Rightarrow> chain P m p) @ [k]"

definition abs_lis :: "int list \<Rightarrow> nat list" where
  "abs_lis seq =
     (case abs_run seq (length seq) of (P, T) \<Rightarrow>
        if T = [] then [] else chain P (length T) (last T))"

text \<open>
  \<open>ranked seq P m k\<close>: the index \<open>k\<close> is processed and not skip-marked, and its predecessor
  chain has exactly \<open>m\<close> more links, each to an earlier index with a smaller value.
\<close>

fun ranked :: "int list \<Rightarrow> nat option list \<Rightarrow> nat \<Rightarrow> nat \<Rightarrow> bool" where
  "ranked seq P 0 k \<longleftrightarrow> k < length P \<and> seq ! k \<noteq> - 1 \<and> P ! k = None"
| "ranked seq P (Suc m) k \<longleftrightarrow>
     k < length P \<and> seq ! k \<noteq> - 1 \<and>
     (case P ! k of None \<Rightarrow> False | Some p \<Rightarrow> p < k \<and> seq ! p < seq ! k \<and> ranked seq P m p)"

text \<open>
  The invariant after \<open>i\<close> iterations: every tail is a processed index that ends a chain
  of its position's length, the tail values strictly increase, and the tail at position
  \<open>m - 1\<close> has the least last value among the valid subsequences of length \<open>m\<close>.
\<close>

definition AInv :: "int list \<Rightarrow> nat \<Rightarrow> abs_state \<Rightarrow> bool" where
  "AInv seq i a \<longleftrightarrow>
     (case a of (P, T) \<Rightarrow>
        length P = i \<and>
        (\<forall>j < length T. T ! j < i \<and> ranked seq P j (T ! j)) \<and>
        sorted_wrt (\<lambda>a b. seq ! a < seq ! b) T \<and>
        (\<forall>js. incr_subseq seq i js \<and> js \<noteq> [] \<longrightarrow>
           length js \<le> length T \<and> seq ! (T ! (length js - 1)) \<le> seq ! last js))"

text \<open>
  How the arrays of the two implementations hold \<open>P\<close> and \<open>T\<close>: \<open>lis_small\<close> writes
  \<open>-1\<close> and \<open>lis_large\<close> the sentinel for "no predecessor".
\<close>

definition enc_small :: "nat option \<Rightarrow> jsval" where
  "enc_small p = (case p of None \<Rightarrow> Number (- 1) | Some q \<Rightarrow> Number (int q))"

definition R_small :: "int list \<Rightarrow> nat \<Rightarrow> small_state \<Rightarrow> abs_state \<Rightarrow> bool" where
  "R_small seq i c a \<longleftrightarrow>
     (case c of (preds, tails, len) \<Rightarrow> case a of (P, T) \<Rightarrow>
        len = length T \<and>
        (\<forall>j < length T. j < length tails \<and> tails ! j = Number (int (T ! j))) \<and>
        (\<forall>k < i. k < length preds \<and> preds ! k = enc_small (P ! k)))"

definition enc_large :: "nat option \<Rightarrow> 32 word" where
  "enc_large p = (case p of None \<Rightarrow> word_of_int SENTINEL | Some q \<Rightarrow> word_of_nat q)"

definition R_large :: "int list \<Rightarrow> nat \<Rightarrow> large_state \<Rightarrow> abs_state \<Rightarrow> bool" where
  "R_large seq i c a \<longleftrightarrow>
     (case c of (preds, tails, len) \<Rightarrow> case a of (P, T) \<Rightarrow>
        len = length T \<and> length preds = length seq \<and> length tails = length seq \<and>
        (\<forall>j < length T. tails ! j = word_of_nat (T ! j)) \<and>
        (\<forall>k < i. preds ! k = enc_large (P ! k)))"

section \<open>Theorems\<close>

text \<open>
  C9. Malformed input to \<open>longestIncreasingSubsequence\<close> (null, undefined, a length that
  is missing or not a number, a length that is not finite) returns the empty result; the
  function returns (\<open>Some\<close>) and no exception is raised, whatever the threshold and the
  work buffer.
\<close>

theorem malformed_input_returns_empty:
  "malformed seq \<Longrightarrow> longestIncreasingSubsequence threshold seq workBuffer = Some []"
  by (cases seq) (simp_all add: malformed_def longestIncreasingSubsequence_def)

theorem malformed_input_returns_empty_witness:
  "malformed ArgNaNLength \<and> longestIncreasingSubsequence 64 ArgNaNLength None = Some []"
  using malformed_input_returns_empty [of ArgNaNLength 64 None]
  by (simp add: malformed_def)

subsection \<open>Ownership scopes\<close>

lemma grows_refl: "grows st st"
  by (simp add: grows_def)

lemma grows_trans: "grows a b \<Longrightarrow> grows b c \<Longrightarrow> grows a c"
  unfolding grows_def
  by (metis append.assoc le_trans less_le_trans)

lemma grows_onCleanup: "grows st (onCleanup fn st)"
  by (auto simp: grows_def onCleanup_def split: option.splits)

lemma grows_alloc:
  "grows st (st\<lparr>owners := (owners st)(next_owner st := ow), next_owner := next_owner st + 1, currentOwner := c\<rparr>)"
  by (auto simp: grows_def)

lemma grows_owner: "grows st st' \<Longrightarrow> grows st (st'\<lparr>currentOwner := c\<rparr>)"
  by (auto simp: grows_def)

lemma grows_called: "grows (st\<lparr>called := c\<rparr>) st' \<Longrightarrow> grows st st'"
  by (auto simp: grows_def)

lemma exec_grows:
  "grows st (snd (exec c st))"
  "grows st (snd (snd (createRoot c st)))"
proof (induction c st and c st rule: exec_createRoot.induct)
  case (1 st)
  then show ?case by (simp add: grows_refl)
next
  case (2 st)
  then show ?case by (simp add: grows_refl)
next
  case (3 fn k st)
  then show ?case using grows_trans [OF grows_onCleanup] by simp
next
  case (4 fn k st)
  show ?case
  proof (cases "createRoot fn st")
    case (fields threw root st')
    with 4 show ?thesis 
      by (cases threw) (auto intro: grows_trans simp del: createRoot.simps)
  qed
next
  case (5 fn st)
  show ?case
    using grows_trans [OF grows_alloc 5 [OF refl refl refl]]
    by (auto simp: Let_def split: prod.splits intro: grows_owner)
qed


lemma exec_called:
  "called (snd (exec c st)) = called st"
  "called (snd (snd (createRoot c st))) = called st"
   apply (induction c st and c st rule: exec_createRoot.induct)
  apply (auto simp: onCleanup_def Let_def split: prod.splits option.splits bool.splits)
  done

lemma run_cleanups_called:
  "root < next_owner st \<Longrightarrow> i \<le> length (cleanups (owners st root)) \<Longrightarrow>
   run_cleanups root i st = (False, st') \<Longrightarrow>
   called st' = called st @ rev (take i (cleanups (owners st root))) \<and> grows st st'"
proof (induction i arbitrary: st)
  case 0
  then show ?case by (simp add: grows_refl)
next
  case (Suc i)
  let ?fn = "cleanups (owners st root) ! i"
  let ?st0 = "st\<lparr>called := called st @ [?fn]\<rparr>"
  obtain t st1 where ex: "exec ?fn ?st0 = (t, st1)" by (cases "exec ?fn ?st0")
  from Suc.prems ex have t: "\<not> t" and rc: "run_cleanups root i st1 = (False, st')"
    by (auto simp: Let_def split: if_splits bool.splits)
  have g: "grows ?st0 st1" using exec_grows(1) [of ?st0 ?fn] ex by simp
  then have g': "grows st st1" by (rule grows_called)
  have c1: "called st1 = called st @ [?fn]" using exec_called(1) [of ?fn ?st0] ex by simp
  from g' Suc.prems(1) obtain ext where ext: "cleanups (owners st1 root) = cleanups (owners st root) @ ext"
    by (auto simp: grows_def)
  have r1: "root < next_owner st1" using g' Suc.prems(1) by (auto simp: grows_def)
  have i1: "i \<le> length (cleanups (owners st1 root))" using ext Suc.prems(2) by simp
  from Suc.IH [OF r1 i1 rc] have ih: "called st' = called st1 @ rev (take i (cleanups (owners st1 root)))"
    and g2: "grows st1 st'" by auto
  have "take i (cleanups (owners st1 root)) = take i (cleanups (owners st root))"
    using ext Suc.prems(2) by simp
  moreover have "take (Suc i) (cleanups (owners st root)) = take i (cleanups (owners st root)) @ [?fn]"
    using Suc.prems(2) by (simp add: take_Suc_conv_app_nth)
  ultimately show ?case using ih c1 grows_trans [OF g' g2] by simp
qed




text \<open>
  C8. \<open>createRoot\<close> leaves the active owner as it found it, whether the body returned or
  threw (both outcomes are results of \<open>createRoot\<close>), and so does the disposer of any
  root, whether the cleanups returned or one of them threw.
\<close>

theorem owner_restored:
  "currentOwner (snd (snd (createRoot fn st))) = currentOwner st \<and>
   currentOwner (snd (dispose root st)) = currentOwner st"
  by (simp add: dispose_def Let_def split: prod.splits)

theorem owner_restored_witness:
  "fst (createRoot (OnCleanup Return Throw) (two_cleanups\<lparr>currentOwner := Some 0\<rparr>)) \<and>
   currentOwner (snd (snd (createRoot (OnCleanup Return Throw)
     (two_cleanups\<lparr>currentOwner := Some 0\<rparr>)))) = Some 0 \<and>
   fst (dispose 0 two_cleanups) \<and>
   currentOwner two_cleanups = None \<and>
   currentOwner (snd (dispose 0 two_cleanups)) = None"
proof -
  have t: "fst (createRoot (OnCleanup Return Throw) (two_cleanups\<lparr>currentOwner := Some 0\<rparr>))"
    "fst (dispose 0 two_cleanups)" "currentOwner two_cleanups = None"
    by (simp_all add: two_cleanups_def no_owners_def onCleanup_def Let_def dispose_def)
  from owner_restored [of "OnCleanup Return Throw" "two_cleanups\<lparr>currentOwner := Some 0\<rparr>" 0]
    owner_restored [of Return two_cleanups 0] t
  show ?thesis by simp
qed

subsection \<open>Signals, effects and the scheduler\<close>

lemma set_fold_set_add: "set (fold set_add xs ys) = set xs \<union> set ys"
  by (induction xs arbitrary: ys) (auto simp: set_add_def)

lemma distinct_fold_set_add: "distinct ys \<Longrightarrow> distinct (fold set_add xs ys)"
  by (induction xs arbitrary: ys) (auto simp: set_add_def)

lemma set_set_add [simp]: "set (set_add x xs) = insert x (set xs)"
  by (auto simp: set_add_def)

lemma set_set_delete [simp]: "set (set_delete x xs) = set xs - {x}"
  by (auto simp: set_delete_def)

lemma fold_delete:
  "fold (\<lambda>d subs. subs(d := set_delete e (subs d))) ds subs =
   (\<lambda>s. if s \<in> set ds then set_delete e (subs s) else subs s)"
  by (induction ds arbitrary: subs) (auto simp: fun_eq_iff set_delete_def)

lemma cleanup_fields [simp]:
  "subscribers (cleanup e st) s =
     (if s \<in> set (dependencies st e) then set_delete e (subscribers st s) else subscribers st s)"
  "dependencies (cleanup e st) = (dependencies st)(e := [])"
  "sig_value (cleanup e st) = sig_value st"
  "effectStack (cleanup e st) = effectStack st"
  "dirtyEffects (cleanup e st) = dirtyEffects st"
  "isBatching (cleanup e st) = isBatching st"
  "microtasks (cleanup e st) = microtasks st"
  "executed (cleanup e st) = executed st"
  by (simp_all add: cleanup_def fold_delete)

lemma write_fields [simp]:
  "sig_value (write_signal s v st) = (sig_value st)(s := v)"
  "subscribers (write_signal s v st) = subscribers st"
  "dependencies (write_signal s v st) = dependencies st"
  "effectStack (write_signal s v st) = effectStack st"
  "executed (write_signal s v st) = executed st"
  by (auto simp: write_signal_def flushQueue_def Let_def)

lemma read_fields [simp]:
  "fst (read s st) = sig_value st s"
  "sig_value (snd (read s st)) = sig_value st"
  "effectStack (snd (read s st)) = effectStack st"
  "dirtyEffects (snd (read s st)) = dirtyEffects st"
  "isBatching (snd (read s st)) = isBatching st"
  "microtasks (snd (read s st)) = microtasks st"
  "executed (snd (read s st)) = executed st"
  by (simp_all add: read_def Let_def)

lemma read_edges:
  "subscribers (snd (read s st)) s' =
     (if effectStack st \<noteq> [] \<and> s' = s then set_add (last (effectStack st)) (subscribers st s)
      else subscribers st s')"
  "dependencies (snd (read s st)) e =
     (if effectStack st \<noteq> [] \<and> e = last (effectStack st) then set_add s (dependencies st e)
      else dependencies st e)"
  by (simp_all add: read_def Let_def)

lemma sym_read: "sym st \<Longrightarrow> sym (snd (read s st))"
  by (auto simp: sym_def read_edges)

lemma sym_write: "sym (write_signal s v st) = sym st"
  by (simp add: sym_def)

lemma sym_cleanup: "sym st \<Longrightarrow> sym (cleanup e st)"
  by (auto simp: sym_def)

lemma sym_run_body: "sym st \<Longrightarrow> sym (snd (run_body p st))"
  by (induction p arbitrary: st) (auto simp: sym_read sym_write)

lemma sym_stack: "sym (st\<lparr>effectStack := xs\<rparr>) = sym st" "sym (st\<lparr>executed := ys\<rparr>) = sym st"
   "sym (st\<lparr>dirtyEffects := zs\<rparr>) = sym st" "sym (st\<lparr>isBatching := b\<rparr>) = sym st"
   "sym (st\<lparr>microtasks := m\<rparr>) = sym st"
  by (simp_all add: sym_def)

lemma sym_execute: "sym st \<Longrightarrow> sym (snd (execute bodies e st))"
  by (simp add: execute_def Let_def split: prod.splits)
     (metis sym_cleanup sym_run_body sym_stack snd_conv)

lemma sym_flush_loop:
  assumes "flush_loop bodies i st = Some r" and "sym st"
  shows "sym (snd r)"
proof -
  have "sym st \<longrightarrow> sym (snd r)"
  proof (rule flush_loop.raw_induct
      [where P = "\<lambda>b i st r. sym st \<longrightarrow> sym (snd r)", OF _ assms(1)])
    fix f :: "(nat \<Rightarrow> 'a prog) \<Rightarrow> nat \<Rightarrow> 'a rstate \<Rightarrow> (bool \<times> 'a rstate) option"
    fix b j s y
    assume IH: "\<And>b j s y. f b j s = Some y \<Longrightarrow> sym s \<longrightarrow> sym (snd y)"
    assume step: "(if j < length (dirtyEffects s)
      then let r = execute b (dirtyEffects s ! j) s
           in if fst r then Some (True, snd r) else f b (j + 1) (snd r)
      else Some (False, s)) = Some y"
    show "sym s \<longrightarrow> sym (snd y)"
    proof
      assume s: "sym s"
      show "sym (snd y)"
      proof (cases "j < length (dirtyEffects s)")
        case False
        with step s show ?thesis by auto
      next
        case True
        let ?r = "execute b (dirtyEffects s ! j) s"
        have sr: "sym (snd ?r)" using s by (rule sym_execute)
        show ?thesis
        proof (cases "fst ?r")
          case True
          with step \<open>j < length (dirtyEffects s)\<close> sr show ?thesis by (auto simp: Let_def)
        next
          case False
          with step \<open>j < length (dirtyEffects s)\<close> have "f b (j + 1) (snd ?r) = Some y"
            by (simp add: Let_def)
          from IH [OF this] sr show ?thesis by simp
        qed
      qed
    qed
  qed
  with assms(2) show ?thesis by simp
qed


lemma flush_loop_rule:
  assumes run: "flush_loop bodies i st = Some r"
    and init: "Inv i st"
    and step: "\<And>j s. Inv j s \<Longrightarrow> j < length (dirtyEffects s) \<Longrightarrow>
                 \<not> fst (execute bodies (dirtyEffects s ! j) s) \<Longrightarrow>
                 Inv (j + 1) (snd (execute bodies (dirtyEffects s ! j) s))"
    and thrown: "\<And>j s. Inv j s \<Longrightarrow> j < length (dirtyEffects s) \<Longrightarrow>
                 fst (execute bodies (dirtyEffects s ! j) s) \<Longrightarrow>
                 Q (True, snd (execute bodies (dirtyEffects s ! j) s))"
    and final: "\<And>j s. Inv j s \<Longrightarrow> \<not> j < length (dirtyEffects s) \<Longrightarrow> Q (False, s)"
  shows "Q r"
proof -
  have "bodies = bodies \<longrightarrow> Inv i st \<longrightarrow> Q r"
  proof (rule flush_loop.raw_induct
      [where P = "\<lambda>b i st r. b = bodies \<longrightarrow> Inv i st \<longrightarrow> Q r", OF _ run], intro impI)
    fix f :: "(nat \<Rightarrow> 'a prog) \<Rightarrow> nat \<Rightarrow> 'a rstate \<Rightarrow> (bool \<times> 'a rstate) option"
    fix b j s y
    assume IH: "\<And>b j s y. f b j s = Some y \<Longrightarrow> b = bodies \<longrightarrow> Inv j s \<longrightarrow> Q y"
    assume body: "(if j < length (dirtyEffects s)
      then let r = execute b (dirtyEffects s ! j) s
           in if fst r then Some (True, snd r) else f b (j + 1) (snd r)
      else Some (False, s)) = Some y"
    assume b: "b = bodies" and inv: "Inv j s"
    show "Q y"
    proof (cases "j < length (dirtyEffects s)")
      case False
      with body final [OF inv] show ?thesis by auto
    next
      case True
      let ?r = "execute bodies (dirtyEffects s ! j) s"
      show ?thesis
      proof (cases "fst ?r")
        case True
        with body b \<open>j < length (dirtyEffects s)\<close> thrown [OF inv] show ?thesis
          by (auto simp: Let_def)
      next
        case False
        with body b \<open>j < length (dirtyEffects s)\<close> have "f bodies (j + 1) (snd ?r) = Some y"
          by (simp add: Let_def)
        from IH [OF this] step [OF inv \<open>j < length (dirtyEffects s)\<close> False] show ?thesis
          by simp
      qed
    qed
  qed
  with init show ?thesis by simp
qed

lemma absorbs_refl: "absorbs st st"
  by (simp add: absorbs_def)

lemma absorbs_trans: "absorbs a b \<Longrightarrow> absorbs b c \<Longrightarrow> absorbs a c"
  unfolding absorbs_def by (metis append.assoc)

lemma fold_set_add_extends: "\<exists>ext. fold set_add xs ys = ys @ ext"
proof (induction xs arbitrary: ys)
  case Nil
  then show ?case by simp
next
  case (Cons x xs)
  obtain ext where "fold set_add xs (set_add x ys) = set_add x ys @ ext"
    using Cons.IH by blast
  moreover have "\<exists>e. set_add x ys = ys @ e"
    by (simp add: set_add_def)
  ultimately show ?case by auto
qed

lemma absorbs_write: "absorbs st (write_signal s v st)"
  using fold_set_add_extends [of "subscribers st s" "dirtyEffects st"]
  by (auto simp: absorbs_def write_signal_def flushQueue_def Let_def distinct_fold_set_add)

lemma absorbs_read: "absorbs st (snd (read s st))"
  by (simp add: absorbs_def)

lemma absorbs_run_body: "absorbs st (snd (run_body p st))"
proof (induction p arbitrary: st)
  case (Read s k)
  have "absorbs (snd (read s st)) (snd (run_body (k (fst (read s st))) (snd (read s st))))"
    by (rule Read.IH) (rule rangeI)
  with absorbs_read [of st s] show ?case
    by (auto intro: absorbs_trans)
next
  case (Write s v p)
  from absorbs_trans [OF absorbs_write Write.IH] show ?case by simp
qed (simp_all add: absorbs_refl)

lemma execute_absorbs:
  "(\<exists>ext. dirtyEffects (snd (execute bodies e st)) = dirtyEffects st @ ext) \<and>
   (distinct (dirtyEffects st) \<longrightarrow> distinct (dirtyEffects (snd (execute bodies e st)))) \<and>
   (isBatching st \<longrightarrow> isBatching (snd (execute bodies e st)) \<and>
                     microtasks (snd (execute bodies e st)) = microtasks st) \<and>
   executed (snd (execute bodies e st)) = executed st @ [e]"
proof -
  let ?st2 = "(cleanup e st)\<lparr>effectStack := effectStack (cleanup e st) @ [e],
                              executed := executed (cleanup e st) @ [e]\<rparr>"
  have "absorbs ?st2 (snd (run_body (bodies e) ?st2))" by (rule absorbs_run_body)
  then show ?thesis
    by (simp add: execute_def Let_def absorbs_def split_beta)
qed


text \<open>
  With finitely many subscribed effects the flush loop returns, and so does every
  sequence of actions from a fresh module.
\<close>

lemma within_write: "within U st \<Longrightarrow> within U (write_signal s v st)"
  by (auto simp: within_def write_signal_def flushQueue_def Let_def set_fold_set_add)

lemma within_read:
  "within U st \<Longrightarrow> effectStack st = [] \<or> last (effectStack st) \<in> U \<Longrightarrow> within U (snd (read s st))"
  by (auto simp: within_def read_edges)

lemma within_cleanup: "within U st \<Longrightarrow> within U (cleanup e st)"
  by (auto simp: within_def)

lemma within_run_body:
  "within U st \<Longrightarrow> effectStack st = [] \<or> last (effectStack st) \<in> U \<Longrightarrow>
   within U (snd (run_body p st))"
proof (induction p arbitrary: st)
  case (Read s k)
  have "within U (snd (run_body (k (fst (read s st))) (snd (read s st))))"
    using Read.prems by (intro Read.IH rangeI within_read) simp_all
  then show ?case by simp
next
  case (Write s v p)
  from Write.IH [of "write_signal s v st"] Write.prems show ?case
    by (simp add: within_write)
qed simp_all

lemma within_execute: "within U st \<Longrightarrow> e \<in> U \<Longrightarrow> within U (snd (execute bodies e st))"
proof -
  assume w: "within U st" and e: "e \<in> U"
  let ?st2 = "(cleanup e st)\<lparr>effectStack := effectStack (cleanup e st) @ [e],
                              executed := executed (cleanup e st) @ [e]\<rparr>"
  have "within U ?st2" using within_cleanup [OF w, of e] by (simp add: within_def)
  then have "within U (snd (run_body (bodies e) ?st2))"
    using e by (intro within_run_body) simp_all
  then show ?thesis by (simp add: execute_def Let_def split_beta within_def)
qed

lemma flush_loop_returns:
  assumes fin: "finite U"
  shows "within U st \<Longrightarrow> distinct (dirtyEffects st) \<Longrightarrow> \<exists>r. flush_loop bodies i st = Some r"
proof (induction "card U - i" arbitrary: i st rule: less_induct)
  case less
  show ?case
  proof (cases "i < length (dirtyEffects st)")
    case False
    then have "flush_loop bodies i st = Some (False, st)" by (subst flush_loop.simps) simp
    then show ?thesis by blast
  next
    case True
    let ?e = "dirtyEffects st ! i"
    let ?r = "execute bodies ?e st"
    have eU: "?e \<in> U" using less.prems(1) True by (auto simp: within_def)
    have "length (dirtyEffects st) = card (set (dirtyEffects st))"
      using less.prems(2) by (simp add: distinct_card)
    also have "\<dots> \<le> card U" using less.prems(1) fin by (auto simp: within_def intro: card_mono)
    finally have "i < card U" using True by simp
    then have m: "card U - (i + 1) < card U - i" by simp
    have w: "within U (snd ?r)" using less.prems(1) eU by (rule within_execute)
    have d: "distinct (dirtyEffects (snd ?r))"
      using execute_absorbs [of bodies ?e st] less.prems(2) by simp
    from less.hyps [OF m w d] obtain r where "flush_loop bodies (i + 1) (snd ?r) = Some r"
      by blast
    then have "flush_loop bodies i st = (if fst ?r then Some (True, snd ?r) else Some r)"
      using True by (subst flush_loop.simps) (simp add: Let_def)
    then show ?thesis by (cases "fst ?r") auto
  qed
qed


lemma within_mono: "within U st \<Longrightarrow> U \<subseteq> V \<Longrightarrow> within V st"
  by (auto simp: within_def)

lemma run_body_stack: "effectStack (snd (run_body p st)) = effectStack st"
  by (induction p arbitrary: st) simp_all

lemma execute_stack: "effectStack (snd (execute bodies e st)) = effectStack st"
  by (simp add: execute_def Let_def split_beta run_body_stack)

lemma flush_loop_keeps:
  assumes run: "flush_loop bodies i st = Some r"
    and w: "within U st" and s: "effectStack st = []"
  shows "within U (snd r) \<and> effectStack (snd r) = []"
proof -
  have step: "within U (snd (execute bodies (dirtyEffects s ! j) s)) \<and>
      effectStack (snd (execute bodies (dirtyEffects s ! j) s)) = []"
    if a: "within U s \<and> effectStack s = []" and j: "j < length (dirtyEffects s)"
    for j and s :: "'a rstate"
  proof -
    from a j have "dirtyEffects s ! j \<in> U" by (auto simp: within_def)
    with a show ?thesis by (simp add: within_execute execute_stack)
  qed
  show ?thesis
  proof (rule flush_loop_rule [where Inv = "\<lambda>j s. within U s \<and> effectStack s = []"
        and Q = "\<lambda>r. within U (snd r) \<and> effectStack (snd r) = []", OF run])
    show "within U st \<and> effectStack st = []" using w s by simp
  next
    fix j and s :: "'a rstate"
    assume "within U s \<and> effectStack s = []" "j < length (dirtyEffects s)"
    then show "within U (snd (execute bodies (dirtyEffects s ! j) s)) \<and>
      effectStack (snd (execute bodies (dirtyEffects s ! j) s)) = []" by (rule step)
  next
    fix j and s :: "'a rstate"
    assume "within U s \<and> effectStack s = []" "j < length (dirtyEffects s)"
    from step [OF this]
    show "within U (snd (True, snd (execute bodies (dirtyEffects s ! j) s))) \<and>
      effectStack (snd (True, snd (execute bodies (dirtyEffects s ! j) s))) = []"
      by simp
  next
    fix j and s :: "'a rstate"
    assume "within U s \<and> effectStack s = []"
    then show "within U (snd (False, s)) \<and> effectStack (snd (False, s)) = []" by simp
  qed
qed

lemma perform_returns:
  assumes fin: "finite U" and w: "within U st" and d: "distinct (dirtyEffects st)"
    and s: "effectStack st = []"
  shows "\<exists>st' V. perform bodies a st = Some st' \<and> finite V \<and> within V st' \<and>
           distinct (dirtyEffects st') \<and> effectStack st' = []"
proof (cases a)
  case (DoRead x)
  with fin w d s show ?thesis
    by (auto simp: perform_def intro!: exI [of _ U] within_read)
next
  case (DoWrite x v)
  with fin w d s absorbs_write [of st x v] show ?thesis
    by (auto simp: perform_def absorbs_def intro!: exI [of _ U] within_write)
next
  case (DoCreateEffect e)
  have "within (insert e U) st" using w by (rule within_mono) auto
  then have "within (insert e U) (snd (execute bodies e st))"
    by (rule within_execute) simp
  moreover have "distinct (dirtyEffects (snd (execute bodies e st)))"
    using execute_absorbs [of bodies e st] d by simp
  ultimately show ?thesis using DoCreateEffect fin s
    by (auto simp: perform_def execute_stack intro!: exI [of _ "insert e U"])
next
  case (DoDispose e)
  with fin w d s show ?thesis
    by (auto simp: perform_def intro!: exI [of _ U] within_cleanup)
next
  case DoMicrotask
  show ?thesis
  proof (cases "microtasks st = 0")
    case True
    with DoMicrotask fin w d s show ?thesis
      by (auto simp: perform_def run_microtask_def intro!: exI [of _ U])
  next
    case False
    let ?st1 = "st\<lparr>microtasks := microtasks st - 1\<rparr>"
    have w1: "within U ?st1" using w by (simp add: within_def)
    have d1: "distinct (dirtyEffects ?st1)" using d by simp
    from flush_loop_returns [OF fin w1 d1, of bodies 0]
    obtain r where r: "flush_loop bodies 0 ?st1 = Some r" by blast
    from flush_loop_keeps [OF r w1] s
    have k: "within U (snd r)" "effectStack (snd r) = []" by simp_all
    let ?st' = "(snd r)\<lparr>dirtyEffects := [], isBatching := False\<rparr>"
    have "perform bodies a st = Some ?st'"
      using DoMicrotask False r by (simp add: perform_def run_microtask_def flush_def split_beta)
    moreover have "within U ?st'" using k(1) by (simp add: within_def)
    ultimately show ?thesis using fin k(2) by (auto intro!: exI [of _ U])
  qed
qed

lemma perform_all_returns_from:
  "finite U \<Longrightarrow> within U st \<Longrightarrow> distinct (dirtyEffects st) \<Longrightarrow> effectStack st = [] \<Longrightarrow>
   \<exists>st'. perform_all bodies acts st = Some st'"
proof (induction acts arbitrary: U st)
  case Nil
  then show ?case by simp
next
  case (Cons a acts)
  from perform_returns [OF Cons.prems, of bodies a]
  obtain st' V where p: "perform bodies a st = Some st'" "finite V" "within V st'"
    "distinct (dirtyEffects st')" "effectStack st' = []" by blast
  from Cons.IH [OF p(2-5)] p(1) show ?case by simp
qed

lemma perform_all_returns: "\<exists>st. perform_all bodies acts (fresh vals) = Some st"
  by (rule perform_all_returns_from [of "{}"]) (simp_all add: within_def fresh_def)

lemmas reactive_eval = execute_def cleanup_def read_def write_signal_def flushQueue_def
  set_add_def set_delete_def fresh_def Let_def perform_def run_microtask_def flush_def

lemma guard_state_eval:
  "guard_state = \<lparr>sig_value = (\<lambda>_. True)(0 := False), subscribers = (\<lambda>_. [])(0 := [7], 1 := [7]),
      dependencies = (\<lambda>_. [])(7 := [0, 1]), effectStack = [], dirtyEffects = [],
      isBatching = False, microtasks = 0, executed = [7]\<rparr>"
  by (simp add: guard_state_def guard_bodies_def reactive_eval)

lemma chain_state_eval:
  "chain_state = \<lparr>sig_value = (\<lambda>_. 0), subscribers = (\<lambda>_. [])(0 := [1], 1 := [2]),
      dependencies = (\<lambda>_. [])(1 := [0], 2 := [1]), effectStack = [], dirtyEffects = [],
      isBatching = False, microtasks = 0, executed = [1, 2]\<rparr>"
  by (simp add: chain_state_def chain_bodies_def reactive_eval fun_upd_twist)

lemma chain_run:
  "run_microtask chain_bodies (write_all [(0, 5), (0, 6)] chain_state) =
   Some (False, chain_flushed)"
  by (simp add: chain_state_eval chain_flushed_def chain_bodies_def reactive_eval
      flush_loop.simps fun_upd_twist)

lemma chain_midflush_run:
  "flush_loop chain_bodies 0 (write_signal 0 5 chain_state) = Some (False, chain_midflush)"
  by (simp add: chain_state_eval chain_midflush_def chain_bodies_def reactive_eval
      flush_loop.simps fun_upd_twist)

lemma guard_run:
  "perform_all guard_bodies [DoCreateEffect 7, DoWrite 0 False, DoMicrotask] (fresh (\<lambda>_. True)) =
     Some guard_flushed"
  by (simp add: guard_flushed_def guard_bodies_def reactive_eval flush_loop.simps)

text \<open>
  C5. A write of the value the signal already holds changes nothing at all: the value,
  the subscriber sets, the dirty set and the microtask queue are as before. Any other
  write stores the new value, puts every current subscriber into the dirty set and calls
  \<open>flushQueue\<close>, after which a flush is pending (queued now unless one already was).
\<close>

theorem write_spec:
  "(sig_value st s = v \<longrightarrow> write_signal s v st = st) \<and>
   (sig_value st s \<noteq> v \<longrightarrow>
      sig_value (write_signal s v st) s = v \<and>
      set (subscribers st s) \<subseteq> set (dirtyEffects (write_signal s v st)) \<and>
      isBatching (write_signal s v st) \<and>
      microtasks (write_signal s v st) = (if isBatching st then microtasks st else microtasks st + 1))"
  by (simp add: write_signal_def flushQueue_def Let_def set_fold_set_add)

theorem write_spec_witness:
  "sig_value chain_state 0 = 0 \<and> write_signal 0 0 chain_state = chain_state \<and>
   sig_value chain_state 0 \<noteq> 5 \<and>
   sig_value (write_signal 0 5 chain_state) 0 = 5 \<and>
   set (subscribers chain_state 0) \<subseteq> set (dirtyEffects (write_signal 0 5 chain_state)) \<and>
   isBatching (write_signal 0 5 chain_state) \<and>
   microtasks (write_signal 0 5 chain_state) = 1"
  using write_spec [of chain_state 0 0] write_spec [of chain_state 0 5]
  by (simp add: chain_state_eval)

lemma run_body_track:
  "effectStack st \<noteq> [] \<Longrightarrow>
     effectStack (snd (run_body p st)) = effectStack st \<and>
     (\<forall>e. set (dependencies (snd (run_body p st)) e) =
            set (dependencies st e) \<union>
            (if e = last (effectStack st) then set (cells_read p (sig_value st)) else {})) \<and>
     (\<forall>s. set (subscribers (snd (run_body p st)) s) =
            set (subscribers st s) \<union>
            (if s \<in> set (cells_read p (sig_value st)) then {last (effectStack st)} else {}))"
proof (induction p arbitrary: st)
  case (Read s k)
  let ?st1 = "snd (read s st)"
  have ne: "effectStack ?st1 \<noteq> []" using Read.prems by simp
  have ih: "effectStack (snd (run_body (k (sig_value st s)) ?st1)) = effectStack ?st1 \<and>
     (\<forall>e. set (dependencies (snd (run_body (k (sig_value st s)) ?st1)) e) =
            set (dependencies ?st1 e) \<union>
            (if e = last (effectStack ?st1) then set (cells_read (k (sig_value st s)) (sig_value ?st1)) else {})) \<and>
     (\<forall>s'. set (subscribers (snd (run_body (k (sig_value st s)) ?st1)) s') =
            set (subscribers ?st1 s') \<union>
            (if s' \<in> set (cells_read (k (sig_value st s)) (sig_value ?st1)) then {last (effectStack ?st1)} else {}))"
    by (rule Read.IH [OF rangeI ne])
  show ?case using ih Read.prems
    by (auto simp: read_edges)
next
  case (Write s v p)
  from Write.IH [of "write_signal s v st"] Write.prems show ?case
    by (simp del: fun_upd_apply)
qed simp_all



lemma sym_fresh: "sym (fresh vals)"
  by (simp add: sym_def fresh_def)

lemma sym_perform: "perform bodies a st = Some st' \<Longrightarrow> sym st \<Longrightarrow> sym st'"
proof (cases a)
  case DoMicrotask
  assume p: "perform bodies a st = Some st'" and s: "sym st"
  show ?thesis
  proof (cases "microtasks st = 0")
    case True
    with p s DoMicrotask show ?thesis by (simp add: perform_def run_microtask_def)
  next
    case False
    with p DoMicrotask obtain r where
      fl: "flush_loop bodies 0 (st\<lparr>microtasks := microtasks st - 1\<rparr>) = Some r"
      and st': "st' = (snd r)\<lparr>dirtyEffects := [], isBatching := False\<rparr>"
      by (auto simp: perform_def run_microtask_def flush_def split: option.splits)
    from sym_flush_loop [OF fl] s have "sym (snd r)" by (simp add: sym_stack)
    then show ?thesis by (simp add: st' sym_def)
  qed
qed (auto simp: perform_def sym_read sym_write sym_execute sym_cleanup)

lemma sym_perform_all: "perform_all bodies acts st = Some st' \<Longrightarrow> sym st \<Longrightarrow> sym st'"
  by (induction acts arbitrary: st) (auto split: option.splits dest: sym_perform)

text \<open>
  C10. Every sequence of reads, writes, effect creations, disposals and flushes from a
  fresh module returns, and in the state it reaches, that is at every point between two
  computation bodies, an effect is in the subscriber set of a signal exactly when that
  set is among the effect's dependencies; and once the disposer of an effect has run, no
  subscriber set contains the effect.
\<close>

theorem subscription_symmetric:
  "\<exists>st. perform_all bodies acts (fresh vals) = Some st \<and>
     (e \<in> set (subscribers st s) \<longleftrightarrow> s \<in> set (dependencies st e)) \<and>
     e \<notin> set (subscribers (cleanup e st) s')"
proof -
  from perform_all_returns [of bodies acts vals]
  obtain st where st: "perform_all bodies acts (fresh vals) = Some st" by blast
  have "sym st" using sym_perform_all [OF st sym_fresh] .
  then have "(e \<in> set (subscribers st s) \<longleftrightarrow> s \<in> set (dependencies st e)) \<and>
     e \<notin> set (subscribers (cleanup e st) s')"
    by (auto simp: sym_def)
  with st show ?thesis by blast
qed

theorem subscription_symmetric_witness:
  "perform_all guard_bodies [DoCreateEffect 7, DoWrite 0 False, DoMicrotask] (fresh (\<lambda>_. True)) =
     Some guard_flushed \<and>
   (7 \<in> set (subscribers guard_flushed 0) \<longleftrightarrow> 0 \<in> set (dependencies guard_flushed 7)) \<and>
   (7 \<in> set (subscribers guard_flushed 1) \<longleftrightarrow> 1 \<in> set (dependencies guard_flushed 7)) \<and>
   7 \<notin> set (subscribers (cleanup 7 guard_flushed) 0)"
  using subscription_symmetric
      [of guard_bodies "[DoCreateEffect 7, DoWrite 0 False, DoMicrotask]" "\<lambda>_. True" 7 0 0]
    subscription_symmetric
      [of guard_bodies "[DoCreateEffect 7, DoWrite 0 False, DoMicrotask]" "\<lambda>_. True" 7 1 0]
    guard_run
  by auto

lemma write_all_absorbs: "absorbs st (write_all ws st)"
proof (induction ws arbitrary: st)
  case Nil
  show ?case by (simp add: absorbs_refl)
next
  case (Cons w ws)
  obtain s v where w: "w = (s, v)" by (cases w)
  from absorbs_trans [OF absorbs_write Cons.IH] show ?case by (simp add: w)
qed

lemma write_all_within: "within U st \<Longrightarrow> within U (write_all ws st)"
proof (induction ws arbitrary: st)
  case Nil
  then show ?case by simp
next
  case (Cons w ws)
  obtain s v where w: "w = (s, v)" by (cases w)
  from Cons.IH [OF within_write [OF Cons.prems, of s v]] show ?case by (simp add: w)
qed

lemma write_all_schedules_once:
  "\<not> isBatching st \<Longrightarrow>
     (isBatching (write_all ws st) \<and> microtasks (write_all ws st) = microtasks st + 1) \<or>
     (\<not> isBatching (write_all ws st) \<and> microtasks (write_all ws st) = microtasks st)"
proof (induction ws arbitrary: st)
  case Nil
  then show ?case by simp
next
  case (Cons w ws)
  obtain s v where w: "w = (s, v)" by (cases w)
  show ?case
  proof (cases "sig_value st s = v")
    case True
    then have "write_signal s v st = st" by (simp add: write_signal_def)
    with Cons show ?thesis by (simp add: w)
  next
    case False
    let ?st1 = "write_signal s v st"
    from False Cons.prems have b: "isBatching ?st1" and m: "microtasks ?st1 = microtasks st + 1"
      by (simp_all add: write_signal_def flushQueue_def Let_def)
    from write_all_absorbs [of ?st1 ws] b m show ?thesis
      by (simp add: w absorbs_def)
  qed
qed

lemma flush_loop_batch:
  assumes d: "distinct (dirtyEffects st)" and b: "isBatching st"
    and run: "flush_loop bodies 0 st = Some (threw, st')"
  shows "distinct (dirtyEffects st') \<and> isBatching st' \<and> microtasks st' = microtasks st \<and>
         (\<exists>n. executed st' = executed st @ take n (dirtyEffects st')) \<and>
         (\<not> threw \<longrightarrow> executed st' = executed st @ dirtyEffects st')"
proof -
  define Inv where "Inv j s \<longleftrightarrow> j \<le> length (dirtyEffects s) \<and> distinct (dirtyEffects s) \<and>
      isBatching s \<and> microtasks s = microtasks st \<and>
      executed s = executed st @ take j (dirtyEffects s)" for j and s :: "'a rstate"
  define Q where "Q r \<longleftrightarrow> distinct (dirtyEffects (snd r)) \<and> isBatching (snd r) \<and>
      microtasks (snd r) = microtasks st \<and>
      (\<exists>n. executed (snd r) = executed st @ take n (dirtyEffects (snd r))) \<and>
      (\<not> fst r \<longrightarrow> executed (snd r) = executed st @ dirtyEffects (snd r))"
    for r :: "bool \<times> 'a rstate"
  have stepI: "Inv (j + 1) (snd (execute bodies (dirtyEffects s ! j) s))"
    if inv: "Inv j s" and j: "j < length (dirtyEffects s)" for j s
  proof -
    let ?s' = "snd (execute bodies (dirtyEffects s ! j) s)"
    from execute_absorbs [of bodies "dirtyEffects s ! j" s] inv
    obtain ext where e: "dirtyEffects ?s' = dirtyEffects s @ ext"
      and dd: "distinct (dirtyEffects ?s')" and bb: "isBatching ?s'"
      and mm: "microtasks ?s' = microtasks st"
      and ee: "executed ?s' = executed s @ [dirtyEffects s ! j]"
      by (auto simp: Inv_def)
    have "take (j + 1) (dirtyEffects ?s') = take j (dirtyEffects s) @ [dirtyEffects s ! j]"
      using j e by (simp add: take_Suc_conv_app_nth)
    with e dd bb mm ee inv j show ?thesis by (simp add: Inv_def)
  qed
  have "Q (threw, st')"
  proof (rule flush_loop_rule [where Inv = Inv and Q = Q, OF run])
    show "Inv 0 st" using d b by (simp add: Inv_def)
  next
    fix j s assume "Inv j s" "j < length (dirtyEffects s)"
    then show "Inv (j + 1) (snd (execute bodies (dirtyEffects s ! j) s))" by (rule stepI)
  next
    fix j s assume inv: "Inv j s" and j: "j < length (dirtyEffects s)"
    from stepI [OF inv j] show "Q (True, snd (execute bodies (dirtyEffects s ! j) s))"
      by (auto simp: Inv_def Q_def)
  next
    fix j s assume "Inv j s" "\<not> j < length (dirtyEffects s)"
    then have "Inv j s" "j = length (dirtyEffects s)" by (auto simp: Inv_def)
    then have "executed s = executed st @ take (length (dirtyEffects s)) (dirtyEffects s)"
      "executed s = executed st @ dirtyEffects s"
      by (auto simp: Inv_def)
    with \<open>Inv j s\<close> show "Q (False, s)" unfolding Inv_def Q_def by (metis fst_conv snd_conv)
  qed
  then show ?thesis by (simp add: Q_def)
qed

text \<open>
  C4. From an idle scheduler with finitely many subscribed effects, any sequence of
  writes queues at most one flush; that flush returns, and when it has run, every effect
  was executed at most once in it and no flush is left queued or in progress. A write made while a flush is in progress queues no microtask and
  only adds to the end of the dirty set being iterated; and a flush that completes has
  executed exactly the members of that set, those added during the flush included, each
  once.
\<close>

theorem batching:
  "(dirtyEffects st = [] \<and> \<not> isBatching st \<and> microtasks st = 0 \<and>
    finite (\<Union>s. set (subscribers st s)) \<longrightarrow>
      (\<exists>threw st2. run_microtask bodies (write_all ws st) = Some (threw, st2) \<and>
         microtasks (write_all ws st) \<le> 1 \<and>
         distinct (drop (length (executed st)) (executed st2)) \<and>
         microtasks st2 = 0 \<and> \<not> isBatching st2)) \<and>
   (isBatching sb \<longrightarrow>
      microtasks (write_signal s v sb) = microtasks sb \<and>
      (\<exists>ext. dirtyEffects (write_signal s v sb) = dirtyEffects sb @ ext)) \<and>
   (distinct (dirtyEffects sf) \<and> isBatching sf \<and> flush_loop bodies 0 sf = Some (False, sf') \<longrightarrow>
      executed sf' = executed sf @ dirtyEffects sf' \<and> distinct (dirtyEffects sf') \<and>
      microtasks sf' = microtasks sf)"
proof (intro conjI impI)
  assume a: "dirtyEffects st = [] \<and> \<not> isBatching st \<and> microtasks st = 0 \<and>
    finite (\<Union>s. set (subscribers st s))"
  let ?st1 = "write_all ws st"
  let ?U = "\<Union>s. set (subscribers st s)"
  from a have idle: "dirtyEffects st = []" "\<not> isBatching st" "microtasks st = 0"
    and fin: "finite ?U" by auto
  from write_all_schedules_once [OF idle(2), of ws] idle(3)
  have cases: "(isBatching ?st1 \<and> microtasks ?st1 = 1) \<or> (\<not> isBatching ?st1 \<and> microtasks ?st1 = 0)"
    by simp
  then have m1: "microtasks ?st1 \<le> 1" by auto
  from write_all_absorbs [of st ws] idle(1)
  have d1: "distinct (dirtyEffects ?st1)" and e1: "executed ?st1 = executed st"
    by (auto simp: absorbs_def)
  have w0: "within ?U st" using idle(1) by (auto simp: within_def)
  have w1: "within ?U ?st1" using w0 by (rule write_all_within)
  have "\<exists>threw st2. run_microtask bodies ?st1 = Some (threw, st2) \<and>
      distinct (drop (length (executed st)) (executed st2)) \<and> microtasks st2 = 0 \<and>
      \<not> isBatching st2"
  proof (cases "microtasks ?st1 = 0")
    case True
    with cases e1 show ?thesis by (auto simp: run_microtask_def)
  next
    case False
    with cases have b1: "isBatching ?st1" and m1: "microtasks ?st1 = 1" by auto
    let ?st1' = "?st1\<lparr>microtasks := microtasks ?st1 - 1\<rparr>"
    have w1': "within ?U ?st1'" using w1 by (simp add: within_def)
    have d1': "distinct (dirtyEffects ?st1')" using d1 by simp
    from flush_loop_returns [OF fin w1' d1', of bodies 0]
    obtain t' st' where fl: "flush_loop bodies 0 ?st1' = Some (t', st')" by force
    let ?st2 = "st'\<lparr>dirtyEffects := [], isBatching := False\<rparr>"
    have run: "run_microtask bodies ?st1 = Some (t', ?st2)"
      using False fl by (simp add: run_microtask_def flush_def)
    from flush_loop_batch [OF _ _ fl] d1 b1 m1 e1
    obtain n where "distinct (dirtyEffects st')" "microtasks st' = 0"
      "executed st' = executed st @ take n (dirtyEffects st')"
      by auto
    then have "distinct (drop (length (executed st)) (executed ?st2)) \<and> microtasks ?st2 = 0 \<and>
      \<not> isBatching ?st2" by simp
    with run show ?thesis by blast
  qed
  with m1 show "\<exists>threw st2. run_microtask bodies ?st1 = Some (threw, st2) \<and>
         microtasks ?st1 \<le> 1 \<and>
         distinct (drop (length (executed st)) (executed st2)) \<and>
         microtasks st2 = 0 \<and> \<not> isBatching st2" by blast
next
  assume "isBatching sb"
  with absorbs_write [of sb s v] show "microtasks (write_signal s v sb) = microtasks sb"
    "\<exists>ext. dirtyEffects (write_signal s v sb) = dirtyEffects sb @ ext"
    by (auto simp: absorbs_def)
next
  assume a: "distinct (dirtyEffects sf) \<and> isBatching sf \<and> flush_loop bodies 0 sf = Some (False, sf')"
  then have "distinct (dirtyEffects sf)" "isBatching sf" "flush_loop bodies 0 sf = Some (False, sf')"
    by auto
  from flush_loop_batch [OF this]
  show "executed sf' = executed sf @ dirtyEffects sf'" "distinct (dirtyEffects sf')"
    "microtasks sf' = microtasks sf" by auto
qed

theorem batching_witness:
  "(dirtyEffects chain_state = [] \<and> \<not> isBatching chain_state \<and> microtasks chain_state = 0 \<and>
    finite (\<Union>s. set (subscribers chain_state s))) \<and>
   (run_microtask chain_bodies (write_all [(0, 5), (0, 6)] chain_state) =
      Some (False, chain_flushed) \<and>
    microtasks (write_all [(0, 5), (0, 6)] chain_state) \<le> 1 \<and>
    distinct (drop (length (executed chain_state)) (executed chain_flushed)) \<and>
    microtasks chain_flushed = 0 \<and> \<not> isBatching chain_flushed) \<and>
   isBatching (write_signal 0 5 chain_state) \<and>
   (microtasks (write_signal 0 6 (write_signal 0 5 chain_state)) =
      microtasks (write_signal 0 5 chain_state) \<and>
    (\<exists>ext. dirtyEffects (write_signal 0 6 (write_signal 0 5 chain_state)) =
       dirtyEffects (write_signal 0 5 chain_state) @ ext)) \<and>
   (distinct (dirtyEffects (write_signal 0 5 chain_state)) \<and>
    flush_loop chain_bodies 0 (write_signal 0 5 chain_state) = Some (False, chain_midflush)) \<and>
   (executed chain_midflush =
      executed (write_signal 0 5 chain_state) @ dirtyEffects chain_midflush \<and>
    distinct (dirtyEffects chain_midflush) \<and>
    microtasks chain_midflush = microtasks (write_signal 0 5 chain_state))"
proof -
  have "(\<Union>s. set (subscribers chain_state s)) \<subseteq> {1, 2}"
    by (auto simp: chain_state_eval split: if_splits)
  then have fin: "finite (\<Union>s. set (subscribers chain_state s))"
    by (rule finite_subset) simp
  have idle: "dirtyEffects chain_state = [] \<and> \<not> isBatching chain_state \<and>
      microtasks chain_state = 0"
    by (simp add: chain_state_eval)
  have b: "isBatching (write_signal 0 5 chain_state)"
    "distinct (dirtyEffects (write_signal 0 5 chain_state))"
    by (simp_all add: chain_state_eval reactive_eval)
  note inst = batching [of chain_state chain_bodies "[(0, 5), (0, 6)]"
      "write_signal 0 5 chain_state" 0 6 "write_signal 0 5 chain_state" chain_midflush]
  from inst idle fin obtain threw st2 where
    r: "run_microtask chain_bodies (write_all [(0, 5), (0, 6)] chain_state) = Some (threw, st2)"
      "microtasks (write_all [(0, 5), (0, 6)] chain_state) \<le> 1"
      "distinct (drop (length (executed chain_state)) (executed st2))"
      "microtasks st2 = 0" "\<not> isBatching st2"
    by blast
  from r(1) chain_run have "st2 = chain_flushed" by simp
  with r chain_run have one: "run_microtask chain_bodies (write_all [(0, 5), (0, 6)] chain_state) =
      Some (False, chain_flushed) \<and>
    microtasks (write_all [(0, 5), (0, 6)] chain_state) \<le> 1 \<and>
    distinct (drop (length (executed chain_state)) (executed chain_flushed)) \<and>
    microtasks chain_flushed = 0 \<and> \<not> isBatching chain_flushed" by simp
  from inst b chain_midflush_run idle fin one show ?thesis by blast
qed

subsection \<open>The LIS engine\<close>

lemma tail_pos_le: "tail_pos seq T v \<le> length T"
  by (simp add: tail_pos_def length_takeWhile_le)

lemma tail_pos_less: "j < tail_pos seq T v \<Longrightarrow> seq ! (T ! j) < v"
  unfolding tail_pos_def
  by (metis nth_mem set_takeWhileD takeWhile_nth)

lemma tail_pos_stop: "tail_pos seq T v < length T \<Longrightarrow> v \<le> seq ! (T ! tail_pos seq T v)"
  unfolding tail_pos_def
  using nth_length_takeWhile [of "\<lambda>t. seq ! t < v" T] by simp

lemma tail_pos_above:
  assumes "sorted_wrt (\<lambda>a b. seq ! a < seq ! b) T" "tail_pos seq T v \<le> j" "j < length T"
  shows "v \<le> seq ! (T ! j)"
proof (cases "tail_pos seq T v = j")
  case True
  with tail_pos_stop [of seq T v] assms(3) show ?thesis by simp
next
  case False
  with assms(2) have lt: "tail_pos seq T v < j" by simp
  with assms(3) have "tail_pos seq T v < length T" by simp
  then have "v \<le> seq ! (T ! tail_pos seq T v)" by (rule tail_pos_stop)
  moreover have "seq ! (T ! tail_pos seq T v) < seq ! (T ! j)"
    using assms(1) lt assms(3) by (simp add: sorted_wrt_iff_nth_less)
  ultimately show ?thesis by simp
qed

lemma ranked_append: "ranked seq P m k \<Longrightarrow> ranked seq (P @ Q) m k"
proof (induction m arbitrary: k)
  case 0
  then show ?case by (simp add: nth_append)
next
  case (Suc m)
  then show ?case by (auto simp: nth_append split: option.splits)
qed

lemma incr_subseq_Nil [simp]: "incr_subseq seq i []"
  by (simp add: incr_subseq_def)

lemma incr_subseq_snoc:
  "incr_subseq seq i (js @ [k]) \<longleftrightarrow>
     incr_subseq seq i js \<and> k < i \<and> seq ! k \<noteq> - 1 \<and>
     (\<forall>j \<in> set js. j < k \<and> seq ! j < seq ! k)"
  by (auto simp: incr_subseq_def sorted_wrt_append)

lemma incr_subseq_restrict:
  "incr_subseq seq i' js \<Longrightarrow> \<forall>j \<in> set js. j < i \<Longrightarrow> incr_subseq seq i js"
  by (auto simp: incr_subseq_def)

lemma incr_subseq_last_value:
  "incr_subseq seq i js \<Longrightarrow> js \<noteq> [] \<Longrightarrow> j \<in> set js \<Longrightarrow> seq ! j \<le> seq ! last js \<and> j \<le> last js"
proof (induction js rule: rev_induct)
  case Nil
  then show ?case by simp
next
  case (snoc k js)
  then show ?case by (auto simp: incr_subseq_snoc)
qed

lemma chain_ranked:
  "ranked seq P m k \<Longrightarrow>
     incr_subseq seq (length P) (chain P (Suc m) k) \<and> length (chain P (Suc m) k) = Suc m \<and>
     last (chain P (Suc m) k) = k"
proof (induction m arbitrary: k)
  case 0
  then show ?case by (simp add: incr_subseq_def split: option.splits)
next
  case (Suc m)
  from Suc.prems obtain p where p: "P ! k = Some p" "p < k" "seq ! p < seq ! k"
    "ranked seq P m p" and k: "k < length P" "seq ! k \<noteq> - 1"
    by (auto split: option.splits)
  from Suc.IH [OF p(4)] have ih: "incr_subseq seq (length P) (chain P (Suc m) p)"
    "length (chain P (Suc m) p) = Suc m" "last (chain P (Suc m) p) = p" by auto
  have ne: "chain P (Suc m) p \<noteq> []" using ih(2) by auto
  have "\<forall>j \<in> set (chain P (Suc m) p). j < k \<and> seq ! j < seq ! k"
  proof
    fix j assume "j \<in> set (chain P (Suc m) p)"
    from incr_subseq_last_value [OF ih(1) ne this] ih(3) p(2,3)
    show "j < k \<and> seq ! j < seq ! k" by simp
  qed
  with ih k have "incr_subseq seq (length P) (chain P (Suc m) p @ [k])"
    by (simp add: incr_subseq_snoc del: chain.simps)
  moreover have "chain P (Suc (Suc m)) k = chain P (Suc m) p @ [k]"
    using p(1) by simp
  ultimately show ?case using ih(2) by (simp del: chain.simps)
qed

lemma AInv_skip:
  assumes inv: "AInv seq i (P, T)" and skip: "seq ! i = - 1"
  shows "AInv seq (Suc i) (P @ [None], T)"
proof -
  from inv have lenP: "length P = i"
    and tl: "\<forall>j < length T. T ! j < i \<and> ranked seq P j (T ! j)"
    and srt: "sorted_wrt (\<lambda>a b. seq ! a < seq ! b) T"
    and opt: "\<forall>js. incr_subseq seq i js \<and> js \<noteq> [] \<longrightarrow>
           length js \<le> length T \<and> seq ! (T ! (length js - 1)) \<le> seq ! last js"
    by (auto simp: AInv_def)
  have a: "\<forall>j < length T. T ! j < Suc i \<and> ranked seq (P @ [None]) j (T ! j)"
    using tl by (auto intro: ranked_append less_SucI)
  have b: "\<forall>js. incr_subseq seq (Suc i) js \<and> js \<noteq> [] \<longrightarrow>
           length js \<le> length T \<and> seq ! (T ! (length js - 1)) \<le> seq ! last js"
  proof (intro allI impI)
    fix js assume js: "incr_subseq seq (Suc i) js \<and> js \<noteq> []"
    have "\<forall>j \<in> set js. j < i"
    proof
      fix j assume "j \<in> set js"
      with js have "j < Suc i" "seq ! j \<noteq> - 1" by (auto simp: incr_subseq_def)
      with skip show "j < i" by (cases "j = i") auto
    qed
    with js have "incr_subseq seq i js" by (auto intro: incr_subseq_restrict)
    with opt js show "length js \<le> length T \<and> seq ! (T ! (length js - 1)) \<le> seq ! last js"
      by blast
  qed
  from lenP a srt b show ?thesis by (simp add: AInv_def)
qed

lemma AInv_place:
  assumes inv: "AInv seq i (P, T)" and nskip: "seq ! i \<noteq> - 1"
    and lo: "lo = tail_pos seq T (seq ! i)"
    and T': "T' = (if lo < length T then T[lo := i] else T @ [i])"
    and P': "P' = P @ [if lo = 0 then None else Some (T ! (lo - 1))]"
  shows "AInv seq (Suc i) (P', T')"
proof -
  let ?v = "seq ! i"
  from inv have lenP: "length P = i"
    and tl: "\<forall>j < length T. T ! j < i \<and> ranked seq P j (T ! j)"
    and srt: "sorted_wrt (\<lambda>a b. seq ! a < seq ! b) T"
    and opt: "\<forall>js. incr_subseq seq i js \<and> js \<noteq> [] \<longrightarrow>
           length js \<le> length T \<and> seq ! (T ! (length js - 1)) \<le> seq ! last js"
    by (auto simp: AInv_def)
  have lo_le: "lo \<le> length T" unfolding lo by (rule tail_pos_le)
  have below: "j < lo \<Longrightarrow> seq ! (T ! j) < ?v" for j unfolding lo by (rule tail_pos_less)
  have above: "lo \<le> j \<Longrightarrow> j < length T \<Longrightarrow> ?v \<le> seq ! (T ! j)" for j
    unfolding lo using srt by (rule tail_pos_above)
  have lenT': "length T' = (if lo < length T then length T else Suc (length T))"
    by (simp add: T')
  have lo_lt: "lo < length T'" using lo_le by (simp add: lenT')
  have lenT_le: "length T \<le> length T'" by (simp add: lenT')
  have nth_lo: "T' ! lo = i" using lo_le by (auto simp: T' nth_append)
  have nth_other: "j \<noteq> lo \<Longrightarrow> j < length T' \<Longrightarrow> T' ! j = T ! j \<and> j < length T" for j
    using lo_le by (auto simp: T' nth_append split: if_splits)
  have lenP': "length P' = Suc i" by (simp add: P' lenP)
  have rk_old: "j < length T \<Longrightarrow> ranked seq P' j (T ! j)" for j
    using tl by (auto simp: P' intro: ranked_append)
  have rk_new: "ranked seq P' lo i"
  proof (cases lo)
    case 0
    then show ?thesis using nskip by (simp add: P' lenP nth_append)
  next
    case (Suc l)
    then have l: "l < lo" "l < length T" using lo_le by auto
    have "P' ! i = Some (T ! l)" using Suc by (simp add: P' lenP nth_append)
    moreover have "T ! l < i" using tl l(2) by simp
    moreover have "seq ! (T ! l) < ?v" using below l(1) by simp
    moreover have "ranked seq P' l (T ! l)" using rk_old l(2) by simp
    ultimately show ?thesis using Suc nskip lenP' by simp
  qed
  have a: "\<forall>j < length T'. T' ! j < Suc i \<and> ranked seq P' j (T' ! j)"
  proof (intro allI impI)
    fix j assume j: "j < length T'"
    show "T' ! j < Suc i \<and> ranked seq P' j (T' ! j)"
    proof (cases "j = lo")
      case True
      then show ?thesis using nth_lo rk_new by simp
    next
      case False
      from nth_other [OF False j] have "T' ! j = T ! j" "j < length T" by auto
      then show ?thesis using tl rk_old by (auto intro: less_SucI)
    qed
  qed
  have s: "sorted_wrt (\<lambda>a b. seq ! a < seq ! b) T'"
    unfolding sorted_wrt_iff_nth_less
  proof (intro allI impI)
    fix x y assume xy: "x < y" "y < length T'"
    then have x: "x < length T'" by simp
    show "seq ! (T' ! x) < seq ! (T' ! y)"
    proof (cases "x = lo")
      case True
      with xy have ynlo: "y \<noteq> lo" by simp
      from nth_other [OF ynlo xy(2)] have y: "T' ! y = T ! y" "y < length T" by auto
      have lolt: "lo < length T" using True xy(1) y(2) by simp
      have "?v \<le> seq ! (T ! lo)" using above [of lo] lolt by simp
      moreover have "seq ! (T ! lo) < seq ! (T ! y)"
        using srt True xy(1) y(2) by (simp add: sorted_wrt_iff_nth_less)
      ultimately show ?thesis using True nth_lo y(1) by simp
    next
      case False
      from nth_other [OF False x] have x': "T' ! x = T ! x" "x < length T" by auto
      show ?thesis
      proof (cases "y = lo")
        case True
        then show ?thesis using below [of x] xy(1) x'(1) nth_lo by simp
      next
        case False
        from nth_other [OF False xy(2)] have "T' ! y = T ! y" "y < length T" by auto
        then show ?thesis using srt xy(1) x'(1) by (simp add: sorted_wrt_iff_nth_less)
      qed
    qed
  qed
  have b: "\<forall>js. incr_subseq seq (Suc i) js \<and> js \<noteq> [] \<longrightarrow>
           length js \<le> length T' \<and> seq ! (T' ! (length js - 1)) \<le> seq ! last js"
  proof (intro allI impI)
    fix js assume "incr_subseq seq (Suc i) js \<and> js \<noteq> []"
    then have js: "incr_subseq seq (Suc i) js" and ne: "js \<noteq> []" by auto
    from ne obtain js' k where jsk: "js = js' @ [k]" by (cases js rule: rev_cases) auto
    from js jsk have js': "incr_subseq seq (Suc i) js'" and k: "k < Suc i" "seq ! k \<noteq> - 1"
      and lt: "\<forall>j \<in> set js'. j < k \<and> seq ! j < seq ! k"
      by (auto simp: incr_subseq_snoc)
    show "length js \<le> length T' \<and> seq ! (T' ! (length js - 1)) \<le> seq ! last js"
    proof (cases "k = i")
      case False
      with k have ki: "k < i" by simp
      have "\<forall>j \<in> set js. j < i" using lt ki jsk by auto
      with js have "incr_subseq seq i js" by (auto intro: incr_subseq_restrict)
      with opt ne have o: "length js \<le> length T" "seq ! (T ! (length js - 1)) \<le> seq ! last js"
        by auto
      have m: "length js - 1 < length T" using o(1) ne by (cases js) auto
      have "seq ! (T' ! (length js - 1)) \<le> seq ! last js"
      proof (cases "length js - 1 = lo")
        case True
        have "?v \<le> seq ! (T ! lo)" using above [of lo] m True by simp
        with o(2) True nth_lo show ?thesis by simp
      next
        case False
        from nth_other [OF False] m lenT_le have "T' ! (length js - 1) = T ! (length js - 1)"
          by simp
        with o(2) show ?thesis by simp
      qed
      with o(1) lenT_le show ?thesis by simp
    next
      case True
      have last: "last js = i" "length js = Suc (length js')" using jsk True by auto
      have js'i: "incr_subseq seq i js'"
        using js' lt True by (auto intro: incr_subseq_restrict)
      have len: "length js' \<le> lo"
      proof (cases "js' = []")
        case True
        then show ?thesis by simp
      next
        case False
        with opt js'i have o: "length js' \<le> length T"
          "seq ! (T ! (length js' - 1)) \<le> seq ! last js'" by auto
        have "last js' \<in> set js'" using False by simp
        with lt True have "seq ! last js' < ?v" by auto
        with o(2) have small: "seq ! (T ! (length js' - 1)) < ?v" by simp
        have m: "length js' - 1 < length T" using o(1) False by (cases js') auto
        show ?thesis
        proof (rule ccontr)
          assume "\<not> length js' \<le> lo"
          then have "lo \<le> length js' - 1" by simp
          from above [OF this m] small show False by simp
        qed
      qed
      have "seq ! (T' ! length js') \<le> ?v"
      proof (cases "length js' = lo")
        case True
        then show ?thesis using nth_lo by simp
      next
        case False
        with len have l: "length js' < lo" by simp
        then have "length js' < length T'" using lo_lt by simp
        from nth_other [OF False this] have "T' ! length js' = T ! length js'" by simp
        with below [OF l] show ?thesis by simp
      qed
      moreover have "Suc (length js') \<le> length T'" using len lo_lt by simp
      ultimately show ?thesis using last by simp
    qed
  qed
  from lenP' a s b show ?thesis by (simp add: AInv_def)
qed

lemma AInv_step:
  assumes "AInv seq i a"
  shows "AInv seq (Suc i) (abs_step seq i a)"
proof -
  obtain P T where a: "a = (P, T)" by (cases a)
  show ?thesis
  proof (cases "seq ! i = - 1")
    case True
    with AInv_skip [of seq i P T] assms a show ?thesis by (simp add: abs_step_def)
  next
    case False
    from AInv_place [OF _ False refl refl refl, of P T] assms a False show ?thesis
      by (simp add: abs_step_def Let_def)
  qed
qed

lemma AInv_run: "AInv seq i (abs_run seq i)"
proof (induction i)
  case 0
  show ?case by (simp add: AInv_def incr_subseq_def)
next
  case (Suc i)
  then show ?case by (simp add: AInv_step)
qed

lemma abs_lis_correct:
  "incr_subseq seq (length seq) (abs_lis seq) \<and>
   (\<forall>js. incr_subseq seq (length seq) js \<longrightarrow> length js \<le> length (abs_lis seq))"
proof -
  obtain P T where run: "abs_run seq (length seq) = (P, T)" by (cases "abs_run seq (length seq)")
  from AInv_run [of seq "length seq"] run have lenP: "length P = length seq"
    and tl: "\<forall>j < length T. T ! j < length seq \<and> ranked seq P j (T ! j)"
    and opt: "\<forall>js. incr_subseq seq (length seq) js \<and> js \<noteq> [] \<longrightarrow> length js \<le> length T"
    by (auto simp: AInv_def)
  show ?thesis
  proof (cases "T = []")
    case True
    with opt have "\<forall>js. incr_subseq seq (length seq) js \<longrightarrow> js = []" by auto
    with True run show ?thesis by (auto simp: abs_lis_def)
  next
    case False
    then obtain m where m: "length T = Suc m" by (cases T) auto
    have last: "last T = T ! m" using False m by (simp add: last_conv_nth)
    from tl m have "ranked seq P m (T ! m)" by simp
    from chain_ranked [OF this] lenP
    have "incr_subseq seq (length seq) (chain P (Suc m) (T ! m))"
      "length (chain P (Suc m) (T ! m)) = Suc m" by auto
    moreover have "abs_lis seq = chain P (Suc m) (T ! m)"
      using run False m last by (simp add: abs_lis_def del: chain.simps)
    ultimately show ?thesis using opt m by (metis le0 list.size(3))
  qed
qed

lemma AInv_length:
  assumes "AInv seq i (P, T)"
  shows "length T \<le> i"
proof -
  from assms have tl: "\<forall>j < length T. T ! j < i"
    and srt: "sorted_wrt (\<lambda>a b. seq ! a < seq ! b) T"
    by (auto simp: AInv_def)
  have "distinct T"
    unfolding distinct_conv_nth
  proof (intro allI impI)
    fix x y assume xy: "x < length T" "y < length T" "x \<noteq> y"
    show "T ! x \<noteq> T ! y"
    proof (cases "x < y")
      case True
      with srt xy have "seq ! (T ! x) < seq ! (T ! y)" by (simp add: sorted_wrt_iff_nth_less)
      then show ?thesis by auto
    next
      case False
      with xy have "y < x" by simp
      with srt xy have "seq ! (T ! y) < seq ! (T ! x)" by (simp add: sorted_wrt_iff_nth_less)
      then show ?thesis by auto
    qed
  qed
  then have "length T = card (set T)" by (simp add: distinct_card)
  also have "set T \<subseteq> {..<i}" using tl by (auto simp: in_set_conv_nth)
  then have "card (set T) \<le> card {..<i}" by (intro card_mono) auto
  finally show ?thesis by simp
qed

lemma ushr1_half: "x < 2 ^ 32 \<Longrightarrow> ushr1 x = x div 2"
  by (simp add: ushr1_def)

lemma bsearch_tail_pos:
  assumes srt: "sorted_wrt (\<lambda>a b. seq ! a < seq ! b) T"
    and acc: "\<forall>j < length T. tails_at j = Number (int (T ! j))"
    and rng: "\<forall>j < length T. T ! j < length seq"
    and small: "length T < 2 ^ 31"
  shows "lo \<le> tail_pos seq T num \<Longrightarrow> tail_pos seq T num \<le> hi \<Longrightarrow> hi \<le> length T \<Longrightarrow>
         bsearch seq tails_at num lo hi = Some (tail_pos seq T num)"
proof (induction "hi - lo" arbitrary: lo hi rule: less_induct)
  case less
  show ?case
  proof (cases "lo < hi")
    case False
    with less.prems have "lo = tail_pos seq T num" by simp
    with False show ?thesis by (subst bsearch.simps) simp
  next
    case True
    let ?mid = "ushr1 (lo + hi)"
    have "lo + hi < 2 ^ 32" using True less.prems(3) small by simp
    then have mid: "?mid = (lo + hi) div 2" by (rule ushr1_half)
    have mlo: "lo \<le> ?mid" and mhi: "?mid < hi" using True by (simp_all add: mid)
    have mT: "?mid < length T" using mhi less.prems(3) by simp
    have rd: "seq_at seq (tails_at ?mid) = Number (seq ! (T ! ?mid))"
      using acc rng mT by (simp add: seq_at_def)
    show ?thesis
    proof (cases "seq ! (T ! ?mid) < num")
      case lt: True
      have "?mid < tail_pos seq T num"
      proof (rule ccontr)
        assume "\<not> ?mid < tail_pos seq T num"
        then have "tail_pos seq T num \<le> ?mid" by simp
        from tail_pos_above [OF srt this mT] lt show False by simp
      qed
      then have a: "?mid + 1 \<le> tail_pos seq T num" by simp
      have "hi - (?mid + 1) < hi - lo" using mlo mhi by simp
      from less.hyps [OF this a less.prems(2,3)]
      have "bsearch seq tails_at num (?mid + 1) hi = Some (tail_pos seq T num)" .
      then show ?thesis using True lt rd
        by (subst bsearch.simps) (simp add: Let_def js_lt_def)
    next
      case ge: False
      have a: "tail_pos seq T num \<le> ?mid"
      proof (rule ccontr)
        assume "\<not> tail_pos seq T num \<le> ?mid"
        then have "?mid < tail_pos seq T num" by simp
        from tail_pos_less [OF this] ge show False by simp
      qed
      have "?mid - lo < hi - lo" using mlo mhi by simp
      moreover have "?mid \<le> length T" using mT by simp
      ultimately have "bsearch seq tails_at num lo ?mid = Some (tail_pos seq T num)"
        using less.hyps [of ?mid lo] less.prems(1) a by simp
      then show ?thesis using True ge rd
        by (subst bsearch.simps) (simp add: Let_def js_lt_def)
    qed
  qed
qed

lemma arr_set_nth:
  assumes "i \<le> length xs"
  shows "arr_set xs i v ! i = v" "i < length (arr_set xs i v)"
    "length xs \<le> length (arr_set xs i v)"
    "k \<noteq> i \<Longrightarrow> k < length xs \<Longrightarrow> arr_set xs i v ! k = xs ! k"
  using assms by (auto simp: arr_set_def nth_append)

lemma arr_at_nth: "j < length xs \<Longrightarrow> arr_at xs (Number (int j)) = xs ! j"
  by (simp add: arr_at_def)

lemma preds_keep:
  assumes pr: "\<forall>k < i. k < length preds \<and> preds ! k = enc_small (P ! k)"
    and lenP: "length P = i"
    and v: "v = enc_small q"
    and p': "length preds \<le> length preds'" "\<forall>k < i. preds' ! k = preds ! k"
  shows "\<forall>k < Suc i. k < length (arr_set preds' i v) \<and>
      arr_set preds' i v ! k = enc_small ((P @ [q]) ! k)"
proof (intro allI impI)
  fix k assume k: "k < Suc i"
  have ip: "i \<le> length preds"
  proof (cases i)
    case 0
    then show ?thesis by simp
  next
    case (Suc i')
    with pr have "i' < length preds" by simp
    with Suc show ?thesis by simp
  qed
  have ip': "i \<le> length preds'" using ip p'(1) by simp
  show "k < length (arr_set preds' i v) \<and> arr_set preds' i v ! k = enc_small ((P @ [q]) ! k)"
  proof (cases "k = i")
    case True
    with arr_set_nth(1,2) [OF ip', of v] v lenP show ?thesis by (simp add: nth_append)
  next
    case False
    with k have ki: "k < i" by simp
    with pr p' have a: "k < length preds'" "preds' ! k = enc_small (P ! k)" by auto
    have "length preds' \<le> length (arr_set preds' i v)" by (rule arr_set_nth(3) [OF ip'])
    moreover have "arr_set preds' i v ! k = preds' ! k"
      by (rule arr_set_nth(4) [OF ip' False a(1)])
    ultimately show ?thesis using a ki lenP by (simp add: nth_append)
  qed
qed

lemma tails_keep:
  assumes tl: "\<forall>j < length T. j < length tails \<and> tails ! j = Number (int (T ! j))"
    and lo: "lo \<le> length T"
    and T': "T' = (if lo < length T then T[lo := i] else T @ [i])"
  shows "\<forall>j < length T'. j < length (arr_set tails lo (Number (int i))) \<and>
           arr_set tails lo (Number (int i)) ! j = Number (int (T' ! j))"
proof (intro allI impI)
  fix j assume j: "j < length T'"
  have lt: "lo \<le> length tails"
  proof (cases lo)
    case 0
    then show ?thesis by simp
  next
    case (Suc l)
    with lo tl have "l < length tails" by simp
    with Suc show ?thesis by simp
  qed
  show "j < length (arr_set tails lo (Number (int i))) \<and>
           arr_set tails lo (Number (int i)) ! j = Number (int (T' ! j))"
  proof (cases "j = lo")
    case True
    have "T' ! lo = i" using lo by (auto simp: T' nth_append)
    with arr_set_nth(1,2) [OF lt, of "Number (int i)"] True show ?thesis by simp
  next
    case False
    with j lo have jT: "j < length T" by (auto simp: T' split: if_splits)
    with tl have a: "j < length tails" "tails ! j = Number (int (T ! j))" by auto
    have "T' ! j = T ! j" using False jT by (auto simp: T' nth_append)
    moreover have "length tails \<le> length (arr_set tails lo (Number (int i)))"
      by (rule arr_set_nth(3) [OF lt])
    moreover have "arr_set tails lo (Number (int i)) ! j = tails ! j"
      by (rule arr_set_nth(4) [OF lt False a(1)])
    ultimately show ?thesis using a by simp
  qed
qed

lemma small_step_skip:
  "seq ! i = - 1 \<Longrightarrow>
   small_step seq i (preds, tails, len) = Some (arr_set preds i (Number (- 1)), tails, len)"
  by (simp add: small_step_def)

lemma small_step_first:
  assumes "seq ! i \<noteq> - 1"
    and "bsearch seq (\<lambda>mid. arr_at tails (Number (int mid))) (seq ! i) 0 len = Some 0"
    and "i \<le> length preds"
  shows "\<exists>p1. length preds \<le> length p1 \<and> (\<forall>k < i. p1 ! k = preds ! k) \<and>
      small_step seq i (preds, tails, len) =
      Some (arr_set p1 i (Number (- 1)), arr_set tails 0 (Number (int i)),
            if 0 = len then len + 1 else len)"
proof -
  define p1 where "p1 = arr_set preds i
                 (case arr_at tails (Number (int 0 - 1)) of
                    Undefined \<Rightarrow> Number (- 1) | Number t \<Rightarrow> Number t)"
  have "length preds \<le> length p1" unfolding p1_def by (rule arr_set_nth(3) [OF assms(3)])
  moreover have "\<forall>k < i. p1 ! k = preds ! k"
    unfolding p1_def using arr_set_nth(4) [OF assms(3)] assms(3) by auto
  moreover have "small_step seq i (preds, tails, len) =
      Some (arr_set p1 i (Number (- 1)), arr_set tails 0 (Number (int i)),
            if 0 = len then len + 1 else len)"
    using assms(1,2) by (simp add: small_step_def Let_def p1_def)
  ultimately show ?thesis by blast
qed

lemma small_step_next:
  assumes "seq ! i \<noteq> - 1"
    and "bsearch seq (\<lambda>mid. arr_at tails (Number (int mid))) (seq ! i) 0 len = Some (Suc l)"
    and "arr_at tails (Number (int l)) = Number t"
  shows "small_step seq i (preds, tails, len) =
      Some (arr_set preds i (Number t), arr_set tails (Suc l) (Number (int i)),
            if Suc l = len then len + 1 else len)"
  using assms by (simp add: small_step_def Let_def)

lemma small_step_sim:
  assumes R: "R_small seq i (preds, tails, len) (P, T)" and inv: "AInv seq i (P, T)"
    and i: "i < length seq" and n: "length seq < 2 ^ 31"
  shows "\<exists>c'. small_step seq i (preds, tails, len) = Some c' \<and>
              R_small seq (Suc i) c' (abs_step seq i (P, T))"
proof -
  from R have len: "len = length T"
    and tl: "\<forall>j < length T. j < length tails \<and> tails ! j = Number (int (T ! j))"
    and pr: "\<forall>k < i. k < length preds \<and> preds ! k = enc_small (P ! k)"
    by (auto simp: R_small_def)
  from inv have lenP: "length P = i" and Tlt: "\<forall>j < length T. T ! j < i"
    and srt: "sorted_wrt (\<lambda>a b. seq ! a < seq ! b) T"
    by (auto simp: AInv_def)
  have ip: "i \<le> length preds"
  proof (cases i)
    case 0
    then show ?thesis by simp
  next
    case (Suc i')
    with pr have "i' < length preds" by simp
    with Suc show ?thesis by simp
  qed
  show ?thesis
  proof (cases "seq ! i = - 1")
    case True
    have "\<forall>k < Suc i. k < length (arr_set preds i (Number (- 1))) \<and>
      arr_set preds i (Number (- 1)) ! k = enc_small ((P @ [None]) ! k)"
      by (rule preds_keep [OF pr lenP]) (simp_all add: enc_small_def)
    moreover have "abs_step seq i (P, T) = (P @ [None], T)"
      using True by (simp add: abs_step_def)
    ultimately show ?thesis
      using small_step_skip [OF True, of preds tails len] len tl
      by (simp add: R_small_def)
  next
    case False
    define lo where "lo = tail_pos seq T (seq ! i)"
    define T' where "T' = (if lo < length T then T[lo := i] else T @ [i])"
    define q where "q = (if lo = 0 then None else Some (T ! (lo - 1)))"
    have abs: "abs_step seq i (P, T) = (P @ [q], T')"
      using False by (simp add: abs_step_def Let_def lo_def T'_def q_def)
    have lenT: "length T \<le> i" using inv by (rule AInv_length)
    have acc: "\<forall>j < length T. arr_at tails (Number (int j)) = Number (int (T ! j))"
      using tl by (simp add: arr_at_nth)
    have rng: "\<forall>j < length T. T ! j < length seq" using Tlt i by auto
    have sm: "length T < 2 ^ 31" using lenT i n by simp
    have bs: "bsearch seq (\<lambda>mid. arr_at tails (Number (int mid))) (seq ! i) 0 len = Some lo"
      unfolding len lo_def
      by (rule bsearch_tail_pos [OF srt acc rng sm]) (simp_all add: tail_pos_le)
    have lo_le: "lo \<le> length T" unfolding lo_def by (rule tail_pos_le)
    have t': "\<forall>j < length T'. j < length (arr_set tails lo (Number (int i))) \<and>
           arr_set tails lo (Number (int i)) ! j = Number (int (T' ! j))"
      by (rule tails_keep [OF tl lo_le T'_def])
    have len': "(if lo = len then len + 1 else len) = length T'"
      using lo_le len by (auto simp: T'_def)
    show ?thesis
    proof (cases lo)
      case 0
      from small_step_first [OF False bs [unfolded 0] ip]
      obtain p1 where p1: "length preds \<le> length p1" "\<forall>k < i. p1 ! k = preds ! k"
        and st: "small_step seq i (preds, tails, len) =
          Some (arr_set p1 i (Number (- 1)), arr_set tails 0 (Number (int i)),
            if 0 = len then len + 1 else len)" by blast
      have "\<forall>k < Suc i. k < length (arr_set p1 i (Number (- 1))) \<and>
          arr_set p1 i (Number (- 1)) ! k = enc_small ((P @ [None]) ! k)"
        by (rule preds_keep [OF pr lenP _ p1]) (simp add: enc_small_def)
      moreover have "q = None" using 0 by (simp add: q_def)
      ultimately show ?thesis
        unfolding st abs R_small_def using t' len' 0 by simp
    next
      case (Suc l)
      then have l: "l < length T" using lo_le by simp
      with acc have rd: "arr_at tails (Number (int l)) = Number (int (T ! l))" by simp
      have st: "small_step seq i (preds, tails, len) =
        Some (arr_set preds i (Number (int (T ! l))), arr_set tails (Suc l) (Number (int i)),
            if Suc l = len then len + 1 else len)"
        by (rule small_step_next [OF False bs [unfolded Suc] rd])
      have "\<forall>k < Suc i. k < length (arr_set preds i (Number (int (T ! l)))) \<and>
          arr_set preds i (Number (int (T ! l))) ! k = enc_small ((P @ [Some (T ! l)]) ! k)"
        by (rule preds_keep [OF pr lenP]) (simp_all add: enc_small_def)
      moreover have "q = Some (T ! l)" using Suc by (simp add: q_def)
      ultimately show ?thesis
        unfolding st abs R_small_def using t' len' Suc by simp
    qed
  qed
qed

declare small_loop.simps [simp del] large_loop.simps [simp del]

lemma lis_small_unfold:
  assumes "2 \<le> length seq"
    and "small_loop seq 0 (replicate (length seq) Undefined, replicate (length seq) Undefined, 0)
          = Some (preds, tails, len)"
  shows "lis_small seq =
     (if len = 0 then Some []
      else Some (small_rebuild preds len (arr_at tails (Number (int len - 1)))
                   (replicate len Undefined)))"
proof -
  from assms(1) have "length seq \<noteq> 0" "length seq \<noteq> 1" by auto
  with assms(2) show ?thesis by (simp add: lis_small_def Let_def)
qed

lemma small_loop_sim:
  assumes n: "length seq < 2 ^ 31"
  shows "i \<le> length seq \<Longrightarrow> R_small seq i c (abs_run seq i) \<Longrightarrow>
         \<exists>c'. small_loop seq i c = Some c' \<and>
              R_small seq (length seq) c' (abs_run seq (length seq))"
proof (induction "length seq - i" arbitrary: i c)
  case 0
  then have "i = length seq" by simp
  with 0 show ?case by (subst small_loop.simps) simp
next
  case (Suc d)
  then have i: "i < length seq" by simp
  obtain preds tails len where c: "c = (preds, tails, len)" by (cases c)
  obtain P T where a: "abs_run seq i = (P, T)" by (cases "abs_run seq i")
  have inv: "AInv seq i (P, T)" using AInv_run [of seq i] a by simp
  from small_step_sim [OF _ inv i n, of preds tails len] Suc.prems(2) c a
  obtain c' where st: "small_step seq i c = Some c'"
    and R': "R_small seq (Suc i) c' (abs_run seq (Suc i))" by auto
  have "d = length seq - Suc i" using Suc.hyps(2) by simp
  from Suc.hyps(1) [OF this _ R'] i
  obtain c'' where "small_loop seq (Suc i) c' = Some c''"
    "R_small seq (length seq) c'' (abs_run seq (length seq))" by auto
  then show ?case using i st by (subst small_loop.simps) simp
qed

lemma small_rebuild_chain:
  assumes pr: "\<forall>k < length P. k < length preds \<and> preds ! k = enc_small (P ! k)"
  shows "ranked seq P m k \<Longrightarrow> Suc m \<le> length lis \<Longrightarrow>
         small_rebuild preds (Suc m) (Number (int k)) lis =
         map (\<lambda>j. Number (int j)) (chain P (Suc m) k) @ drop (Suc m) lis"
proof (induction m arbitrary: k lis)
  case 0
  then have "lis = take 0 lis @ lis ! 0 # drop (Suc 0) lis"
    by (metis Suc_le_lessD id_take_nth_drop)
  then show ?case using 0 by (auto simp: arr_set_def upd_conv_take_nth_drop split: option.splits)
next
  case (Suc m)
  from Suc.prems(1) obtain p where p: "P ! k = Some p" "ranked seq P m p" and k: "k < length P"
    by (auto split: option.splits)
  from pr k p(1) have rd: "arr_at preds (Number (int k)) = Number (int p)"
    by (simp add: arr_at_nth enc_small_def)
  let ?lis' = "arr_set lis (Suc m) (Number (int k))"
  have l': "?lis' = lis[Suc m := Number (int k)]" using Suc.prems(2) by (simp add: arr_set_def)
  have "small_rebuild preds (Suc (Suc m)) (Number (int k)) lis =
        small_rebuild preds (Suc m) (Number (int p)) ?lis'"
    using rd by simp
  also have "\<dots> = map (\<lambda>j. Number (int j)) (chain P (Suc m) p) @ drop (Suc m) ?lis'"
    using Suc.prems(2) by (intro Suc.IH [OF p(2)]) (simp add: l')
  also have "drop (Suc m) ?lis' = Number (int k) # drop (Suc (Suc m)) lis"
    using Suc.prems(2) by (simp add: l' drop_update_cancel Cons_nth_drop_Suc [symmetric])
  also have "map (\<lambda>j. Number (int j)) (chain P (Suc m) p) @ Number (int k) # drop (Suc (Suc m)) lis
      = map (\<lambda>j. Number (int j)) (chain P (Suc (Suc m)) k) @ drop (Suc (Suc m)) lis"
    using p(1) by simp
  finally show ?case .
qed

lemma lis_small_abs:
  assumes n: "length seq < 2 ^ 31"
  shows "lis_small seq = Some (map (\<lambda>j. Number (int j)) (abs_lis seq))"
proof -
  consider "length seq = 0" | "length seq = 1" | "2 \<le> length seq" by linarith
  then show ?thesis
  proof cases
    case 1
    then show ?thesis by (simp add: lis_small_def abs_lis_def)
  next
    case 2
    then obtain x where x: "seq = [x]" by (cases seq) auto
    show ?thesis
      by (simp add: x lis_small_def abs_lis_def abs_step_def tail_pos_def)
  next
    case 3
    let ?n = "length seq"
    obtain P T where a: "abs_run seq ?n = (P, T)" by (cases "abs_run seq ?n")
    have R0: "R_small seq 0 (replicate ?n Undefined, replicate ?n Undefined, 0) (abs_run seq 0)"
      by (simp add: R_small_def)
    from small_loop_sim [OF n _ R0]
    obtain c' where lp: "small_loop seq 0 (replicate ?n Undefined, replicate ?n Undefined, 0) = Some c'"
      and R: "R_small seq ?n c' (abs_run seq ?n)" by auto
    obtain preds tails len where c': "c' = (preds, tails, len)" by (cases c')
    from R a c' have len: "len = length T"
      and tl: "\<forall>j < length T. j < length tails \<and> tails ! j = Number (int (T ! j))"
      and pr: "\<forall>k < ?n. k < length preds \<and> preds ! k = enc_small (P ! k)"
      by (auto simp: R_small_def)
    from AInv_run [of seq ?n] a have lenP: "length P = ?n"
      and rk: "\<forall>j < length T. ranked seq P j (T ! j)"
      by (auto simp: AInv_def)
    show ?thesis
    proof (cases "T = []")
      case True
      with lis_small_unfold [OF 3 lp [unfolded c']] len a show ?thesis
        by (simp add: abs_lis_def)
    next
      case False
      then obtain m where m: "length T = Suc m" by (cases T) auto
      have last: "last T = T ! m" using False m by (simp add: last_conv_nth)
      have rd: "arr_at tails (Number (int len - 1)) = Number (int (T ! m))"
        using tl m len by (simp add: arr_at_def)
      have "small_rebuild preds (Suc m) (Number (int (T ! m))) (replicate (Suc m) Undefined) =
         map (\<lambda>j. Number (int j)) (chain P (Suc m) (T ! m)) @
         drop (Suc m) (replicate (Suc m) Undefined)"
        using pr rk m lenP by (intro small_rebuild_chain [where seq = seq]) auto
      then have rb: "small_rebuild preds len (arr_at tails (Number (int len - 1)))
            (replicate len Undefined) = map (\<lambda>j. Number (int j)) (chain P (Suc m) (T ! m))"
        using rd len m by simp
      have "abs_lis seq = chain P (Suc m) (T ! m)"
        using a False m last by (simp add: abs_lis_def del: chain.simps)
      with rb lis_small_unfold [OF 3 lp [unfolded c']] len m show ?thesis
        by (simp del: chain.simps small_rebuild.simps)
    qed
  qed
qed

lemma uint_index: "t < 2 ^ 31 \<Longrightarrow> uint (word_of_nat t :: 32 word) = int t"
  by (simp add: uint_nat unat_of_nat)

lemma index_not_sentinel: "t < 2 ^ 31 \<Longrightarrow> int t \<noteq> SENTINEL"
  by (simp add: SENTINEL_def)

lemma u32_at_nth: "j < length xs \<Longrightarrow> u32_at xs (Number (int j)) = Number (uint (xs ! j))"
  by (simp add: u32_at_def)

lemma u32_set_nat: "i < length xs \<Longrightarrow> u32_set xs i (Number (int t)) = xs[i := word_of_nat t]"
  by (simp add: u32_set_def to_uint32_def)

lemma u32_set_sentinel: "i < length xs \<Longrightarrow> u32_set xs i (Number SENTINEL) = xs[i := enc_large None]"
  by (simp add: u32_set_def to_uint32_def enc_large_def)

lemma large_step_skip:
  "seq ! i = - 1 \<Longrightarrow>
   large_step seq i (preds, tails, len) = Some (u32_set preds i (Number SENTINEL), tails, len)"
  by (simp add: large_step_def)

lemma large_step_first:
  assumes "seq ! i \<noteq> - 1"
    and "bsearch seq (\<lambda>mid. u32_at tails (Number (int mid))) (seq ! i) 0 len = Some 0"
  shows "large_step seq i (preds, tails, len) =
      Some (u32_set preds i (Number SENTINEL), u32_set tails 0 (Number (int i)),
            if 0 = len then len + 1 else len)"
  using assms by (simp add: large_step_def Let_def)

lemma large_step_next:
  assumes "seq ! i \<noteq> - 1"
    and "bsearch seq (\<lambda>mid. u32_at tails (Number (int mid))) (seq ! i) 0 len = Some (Suc l)"
  shows "large_step seq i (preds, tails, len) =
      Some (u32_set preds i (u32_at tails (Number (int l))),
            u32_set tails (Suc l) (Number (int i)),
            if Suc l = len then len + 1 else len)"
  using assms by (simp add: large_step_def Let_def)

lemma large_preds_keep:
  assumes pr: "\<forall>k < i. preds ! k = enc_large (P ! k)"
    and lenP: "length P = i" and i: "i < length preds"
  shows "\<forall>k < Suc i. preds[i := enc_large q] ! k = enc_large ((P @ [q]) ! k)"
  using assms by (auto simp: nth_append nth_list_update less_Suc_eq)

lemma large_tails_keep:
  assumes tl: "\<forall>j < length T. tails ! j = word_of_nat (T ! j)"
    and lo: "lo \<le> length T" "lo < length tails"
    and T': "T' = (if lo < length T then T[lo := i] else T @ [i])"
  shows "\<forall>j < length T'. tails[lo := word_of_nat i] ! j = word_of_nat (T' ! j)"
proof (intro allI impI)
  fix j assume j: "j < length T'"
  show "tails[lo := word_of_nat i] ! j = word_of_nat (T' ! j)"
  proof (cases "j = lo")
    case True
    have "T' ! lo = i" using lo by (auto simp: T' nth_append)
    with True lo(2) show ?thesis by simp
  next
    case False
    with j lo have jT: "j < length T" by (auto simp: T' split: if_splits)
    have "T' ! j = T ! j" using False jT by (auto simp: T' nth_append)
    with tl jT False show ?thesis by simp
  qed
qed

lemma large_step_sim:
  assumes R: "R_large seq i (preds, tails, len) (P, T)" and inv: "AInv seq i (P, T)"
    and i: "i < length seq" and n: "length seq < 2 ^ 31"
  shows "\<exists>c'. large_step seq i (preds, tails, len) = Some c' \<and>
              R_large seq (Suc i) c' (abs_step seq i (P, T))"
proof -
  from R have len: "len = length T"
    and lp: "length preds = length seq" and lt: "length tails = length seq"
    and tl: "\<forall>j < length T. tails ! j = word_of_nat (T ! j)"
    and pr: "\<forall>k < i. preds ! k = enc_large (P ! k)"
    by (auto simp: R_large_def)
  from inv have lenP: "length P = i" and Tlt: "\<forall>j < length T. T ! j < i"
    and srt: "sorted_wrt (\<lambda>a b. seq ! a < seq ! b) T"
    by (auto simp: AInv_def)
  have ip: "i < length preds" using i lp by simp
  show ?thesis
  proof (cases "seq ! i = - 1")
    case True
    have "\<forall>k < Suc i. preds[i := enc_large None] ! k = enc_large ((P @ [None]) ! k)"
      by (rule large_preds_keep [OF pr lenP ip])
    moreover have "abs_step seq i (P, T) = (P @ [None], T)"
      using True by (simp add: abs_step_def)
    ultimately show ?thesis
      using large_step_skip [OF True, of preds tails len] len tl lp lt u32_set_sentinel [OF ip]
      by (simp add: R_large_def)
  next
    case False
    define lo where "lo = tail_pos seq T (seq ! i)"
    define T' where "T' = (if lo < length T then T[lo := i] else T @ [i])"
    define q where "q = (if lo = 0 then None else Some (T ! (lo - 1)))"
    have abs: "abs_step seq i (P, T) = (P @ [q], T')"
      using False by (simp add: abs_step_def Let_def lo_def T'_def q_def)
    have lenT: "length T \<le> i" using inv by (rule AInv_length)
    have Tsm: "\<forall>j < length T. T ! j < 2 ^ 31" using Tlt i n by fastforce
    have acc: "\<forall>j < length T. u32_at tails (Number (int j)) = Number (int (T ! j))"
    proof (intro allI impI)
      fix j assume j: "j < length T"
      then have "j < length tails" using lenT i lt by simp
      then have "u32_at tails (Number (int j)) = Number (uint (tails ! j))" by (rule u32_at_nth)
      with tl j Tsm show "u32_at tails (Number (int j)) = Number (int (T ! j))"
        by (simp add: uint_index)
    qed
    have rng: "\<forall>j < length T. T ! j < length seq" using Tlt i by auto
    have sm: "length T < 2 ^ 31" using lenT i n by simp
    have bs: "bsearch seq (\<lambda>mid. u32_at tails (Number (int mid))) (seq ! i) 0 len = Some lo"
      unfolding len lo_def
      by (rule bsearch_tail_pos [OF srt acc rng sm]) (simp_all add: tail_pos_le)
    have lo_le: "lo \<le> length T" unfolding lo_def by (rule tail_pos_le)
    have lo_lt: "lo < length tails" using lo_le lenT i lt by simp
    have t': "\<forall>j < length T'. tails[lo := word_of_nat i] ! j = word_of_nat (T' ! j)"
      by (rule large_tails_keep [OF tl lo_le lo_lt T'_def])
    have ts: "u32_set tails lo (Number (int i)) = tails[lo := word_of_nat i]"
      by (rule u32_set_nat [OF lo_lt])
    have len': "(if lo = len then len + 1 else len) = length T'"
      using lo_le len by (auto simp: T'_def)
    have p': "\<forall>k < Suc i. preds[i := enc_large q] ! k = enc_large ((P @ [q]) ! k)"
      by (rule large_preds_keep [OF pr lenP ip])
    show ?thesis
    proof (cases lo)
      case 0
      have st: "large_step seq i (preds, tails, len) =
        Some (u32_set preds i (Number SENTINEL), u32_set tails 0 (Number (int i)),
            if 0 = len then len + 1 else len)"
        by (rule large_step_first [OF False bs [unfolded 0]])
      have "q = None" using 0 by (simp add: q_def)
      then show ?thesis
        unfolding st abs R_large_def using t' ts len' 0 p' lp lt u32_set_sentinel [OF ip]
        by simp
    next
      case (Suc l)
      then have l: "l < length T" using lo_le by simp
      with acc have rd: "u32_at tails (Number (int l)) = Number (int (T ! l))" by simp
      have st: "large_step seq i (preds, tails, len) =
        Some (u32_set preds i (Number (int (T ! l))), u32_set tails (Suc l) (Number (int i)),
            if Suc l = len then len + 1 else len)"
        using large_step_next [OF False bs [unfolded Suc], of preds] rd by simp
      have "q = Some (T ! l)" using Suc by (simp add: q_def)
      then have "enc_large q = word_of_nat (T ! l)" by (simp add: enc_large_def)
      then show ?thesis
        unfolding st abs R_large_def using t' ts len' Suc p' lp lt u32_set_nat [OF ip, of "T ! l"]
        by simp
    qed
  qed
qed

lemma large_loop_sim:
  assumes n: "length seq < 2 ^ 31"
  shows "i \<le> length seq \<Longrightarrow> R_large seq i c (abs_run seq i) \<Longrightarrow>
         \<exists>c'. large_loop seq i c = Some c' \<and>
              R_large seq (length seq) c' (abs_run seq (length seq))"
proof (induction "length seq - i" arbitrary: i c)
  case 0
  then have "i = length seq" by simp
  with 0 show ?case by (subst large_loop.simps) simp
next
  case (Suc d)
  then have i: "i < length seq" by simp
  obtain preds tails len where c: "c = (preds, tails, len)" by (cases c)
  obtain P T where a: "abs_run seq i = (P, T)" by (cases "abs_run seq i")
  have inv: "AInv seq i (P, T)" using AInv_run [of seq i] a by simp
  from large_step_sim [OF _ inv i n, of preds tails len] Suc.prems(2) c a
  obtain c' where st: "large_step seq i c = Some c'"
    and R': "R_large seq (Suc i) c' (abs_run seq (Suc i))" by auto
  have "d = length seq - Suc i" using Suc.hyps(2) by simp
  from Suc.hyps(1) [OF this _ R'] i
  obtain c'' where "large_loop seq (Suc i) c' = Some c''"
    "R_large seq (length seq) c'' (abs_run seq (length seq))" by auto
  then show ?case using i st by (subst large_loop.simps) simp
qed

lemma large_rebuild_chain:
  assumes pr: "\<forall>k < length P. preds ! k = enc_large (P ! k)"
    and lp: "length preds = length P" and n: "length P < 2 ^ 31"
  shows "ranked seq P m k \<Longrightarrow> Suc m \<le> length lis \<Longrightarrow>
         large_rebuild preds (Suc m) (Number (int k)) lis =
         map (\<lambda>j. Number (int j)) (chain P (Suc m) k) @ drop (Suc m) lis"
proof (induction m arbitrary: k lis)
  case 0
  then have "lis = take 0 lis @ lis ! 0 # drop (Suc 0) lis"
    by (metis Suc_le_lessD id_take_nth_drop)
  then show ?case using 0
    by (auto simp: arr_set_def Let_def upd_conv_take_nth_drop split: option.splits)
next
  case (Suc m)
  from Suc.prems(1) obtain p where p: "P ! k = Some p" "ranked seq P m p" "p < k"
    and k: "k < length P"
    by (auto split: option.splits)
  have psm: "p < 2 ^ 31" using p(3) k n by simp
  from pr k p(1) lp have "u32_at preds (Number (int k)) = Number (uint (word_of_nat p :: 32 word))"
    by (simp add: u32_at_nth enc_large_def)
  then have rd: "u32_at preds (Number (int k)) = Number (int p)"
    using psm by (simp add: uint_index)
  have ns: "Number (int p) \<noteq> Number SENTINEL" using index_not_sentinel [OF psm] by simp
  let ?lis' = "arr_set lis (Suc m) (Number (int k))"
  have l': "?lis' = lis[Suc m := Number (int k)]" using Suc.prems(2) by (simp add: arr_set_def)
  have "large_rebuild preds (Suc (Suc m)) (Number (int k)) lis =
        large_rebuild preds (Suc m) (Number (int p)) ?lis'"
    using rd ns by (simp add: Let_def)
  also have "\<dots> = map (\<lambda>j. Number (int j)) (chain P (Suc m) p) @ drop (Suc m) ?lis'"
    using Suc.prems(2) by (intro Suc.IH [OF p(2)]) (simp add: l')
  also have "drop (Suc m) ?lis' = Number (int k) # drop (Suc (Suc m)) lis"
    using Suc.prems(2) by (simp add: l' drop_update_cancel Cons_nth_drop_Suc [symmetric])
  also have "map (\<lambda>j. Number (int j)) (chain P (Suc m) p) @ Number (int k) # drop (Suc (Suc m)) lis
      = map (\<lambda>j. Number (int j)) (chain P (Suc (Suc m)) k) @ drop (Suc (Suc m)) lis"
    using p(1) by simp
  finally show ?case .
qed

lemma lis_large_unfold:
  assumes "2 \<le> length seq"
  shows "\<exists>preds tails. length preds = length seq \<and> length tails = length seq \<and>
     lis_large seq workBuffer =
     (case large_loop seq 0 (preds, tails, 0) of
        None \<Rightarrow> None
      | Some (preds', tails', len) \<Rightarrow>
          if len = 0 then Some []
          else Some (large_rebuild preds' len (u32_at tails' (Number (int len - 1)))
                       (replicate len Undefined)))"
proof -
  let ?n = "length seq"
  define buffer :: "32 word list" where "buffer =
     (case workBuffer of None \<Rightarrow> replicate (2 * ?n) 0
      | Some wb \<Rightarrow> if length wb \<ge> 2 * ?n then wb else replicate (2 * ?n) 0)"
  have len: "2 * ?n \<le> length buffer"
    by (simp add: buffer_def split: option.splits)
  have a: "length (take ?n buffer) = ?n" "length (take ?n (drop ?n buffer)) = ?n"
    using len by simp_all
  from assms have ne: "?n \<noteq> 0" "?n \<noteq> 1" by auto
  have "lis_large seq workBuffer =
     (case large_loop seq 0 (take ?n buffer, take ?n (drop ?n buffer), 0) of
        None \<Rightarrow> None
      | Some (preds', tails', len) \<Rightarrow>
          if len = 0 then Some []
          else Some (large_rebuild preds' len (u32_at tails' (Number (int len - 1)))
                       (replicate len Undefined)))"
    using ne by (simp add: lis_large_def Let_def buffer_def)
  with a show ?thesis by blast
qed

lemma lis_large_abs:
  assumes n: "length seq < 2 ^ 31"
  shows "lis_large seq workBuffer = Some (map (\<lambda>j. Number (int j)) (abs_lis seq))"
proof -
  consider "length seq = 0" | "length seq = 1" | "2 \<le> length seq" by linarith
  then show ?thesis
  proof cases
    case 1
    then show ?thesis by (simp add: lis_large_def abs_lis_def)
  next
    case 2
    then obtain x where x: "seq = [x]" by (cases seq) auto
    show ?thesis
      by (simp add: x lis_large_def abs_lis_def abs_step_def tail_pos_def)
  next
    case 3
    let ?n = "length seq"
    from lis_large_unfold [OF 3, of workBuffer]
    obtain preds0 tails0 where l0: "length preds0 = ?n" "length tails0 = ?n"
      and unf: "lis_large seq workBuffer =
       (case large_loop seq 0 (preds0, tails0, 0) of
          None \<Rightarrow> None
        | Some (preds', tails', len) \<Rightarrow>
            if len = 0 then Some []
            else Some (large_rebuild preds' len (u32_at tails' (Number (int len - 1)))
                         (replicate len Undefined)))" by blast
    obtain P T where a: "abs_run seq ?n = (P, T)" by (cases "abs_run seq ?n")
    have R0: "R_large seq 0 (preds0, tails0, 0) (abs_run seq 0)"
      using l0 by (simp add: R_large_def)
    from large_loop_sim [OF n _ R0]
    obtain c' where lp: "large_loop seq 0 (preds0, tails0, 0) = Some c'"
      and R: "R_large seq ?n c' (abs_run seq ?n)" by auto
    obtain preds tails len where c': "c' = (preds, tails, len)" by (cases c')
    from R a c' have len: "len = length T"
      and lens: "length preds = ?n" "length tails = ?n"
      and tl: "\<forall>j < length T. tails ! j = word_of_nat (T ! j)"
      and pr: "\<forall>k < ?n. preds ! k = enc_large (P ! k)"
      by (auto simp: R_large_def)
    from AInv_run [of seq ?n] a have lenP: "length P = ?n"
      and rk: "\<forall>j < length T. ranked seq P j (T ! j)"
      and Tlt: "\<forall>j < length T. T ! j < ?n"
      by (auto simp: AInv_def)
    have lenT: "length T \<le> ?n" using AInv_run [of seq ?n] a AInv_length by metis
    show ?thesis
    proof (cases "T = []")
      case True
      with unf lp c' len a show ?thesis by (simp add: abs_lis_def)
    next
      case False
      then obtain m where m: "length T = Suc m" by (cases T) auto
      have last: "last T = T ! m" using False m by (simp add: last_conv_nth)
      have mt: "m < length tails" using m lenT lens by simp
      have "T ! m < 2 ^ 31" using Tlt m n by fastforce
      then have rd: "u32_at tails (Number (int len - 1)) = Number (int (T ! m))"
        using tl m len u32_at_nth [OF mt] by (simp add: uint_index)
      have "large_rebuild preds (Suc m) (Number (int (T ! m))) (replicate (Suc m) Undefined) =
         map (\<lambda>j. Number (int j)) (chain P (Suc m) (T ! m)) @
         drop (Suc m) (replicate (Suc m) Undefined)"
        using pr rk m lenP lens n by (intro large_rebuild_chain [where seq = seq]) auto
      then have rb: "large_rebuild preds len (u32_at tails (Number (int len - 1)))
            (replicate len Undefined) = map (\<lambda>j. Number (int j)) (chain P (Suc m) (T ! m))"
        using rd len m by simp
      have "abs_lis seq = chain P (Suc m) (T ! m)"
        using a False m last by (simp add: abs_lis_def del: chain.simps)
      with rb unf lp c' len m show ?thesis
        by (simp del: chain.simps large_rebuild.simps)
    qed
  qed
qed

lemmas lis_eval = lis_small_def small_step_def bsearch.simps arr_at_def arr_set_def seq_at_def
  js_lt_def ushr1_def lis_large_def large_step_def u32_at_def u32_set_def to_uint32_def
  SENTINEL_def Let_def small_loop.simps large_loop.simps

text \<open>
  C2. On every input of fewer than \<open>2^31\<close> entries, \<open>lis_small\<close> and \<open>lis_large\<close> both return,
  and their results have the same length, whether \<open>lis_large\<close> gets no work buffer, one
  that is too short, or one that it uses (whatever that buffer holds).
\<close>

theorem dual_path_equal_length:
  assumes "length seq < 2 ^ 31"
  shows "\<exists>small large. lis_small seq = Some small \<and> lis_large seq workBuffer = Some large \<and>
           length small = length large"
  using lis_small_abs [OF assms] lis_large_abs [OF assms, of workBuffer] by simp

theorem dual_path_equal_length_witness:
  "length [3, 1, 2 :: int] < 2 ^ 31 \<and>
   lis_small [3, 1, 2] = Some [Number 1, Number 2] \<and>
   lis_large [3, 1, 2] (Some (replicate 6 7)) = Some [Number 1, Number 2] \<and>
   (\<exists>small large. lis_small [3, 1, 2] = Some small \<and>
      lis_large [3, 1, 2] (Some (replicate 6 7)) = Some large \<and> length small = length large)"
proof -
  have h: "length [3, 1, 2 :: int] < 2 ^ 31" by simp
  have s: "lis_small [3, 1, 2] = Some [Number 1, Number 2]"
    by (simp add: lis_eval)
  have l: "lis_large [3, 1, 2] (Some (replicate 6 7)) = Some [Number 1, Number 2]"
    by (simp add: lis_eval)
  from dual_path_equal_length [OF h, of "Some (replicate 6 7)"] h s l show ?thesis
    by blast
qed



subsection \<open>The reorder pass on \<open>["a","b","c"]\<close> to \<open>["c","b","a"]\<close>\<close>

lemma lis_small_cba: "lis_small (reorder_seq [''a'', ''b'', ''c''] [''c'', ''b'', ''a'']) = Some [Number 2]"
  by (simp add: lis_eval reorder_seq_def)

lemma lis_large_cba: "lis_large (reorder_seq [''a'', ''b'', ''c''] [''c'', ''b'', ''a'']) None = Some [Number 2]"
  by (simp add: lis_eval reorder_seq_def)

lemma lis_cba:
  "longestIncreasingSubsequence t (ArgArray (reorder_seq [''a'', ''b'', ''c''] [''c'', ''b'', ''a''])) None
     = Some [Number 2]"
  using lis_small_cba lis_large_cba
  by (simp add: longestIncreasingSubsequence_def reorder_seq_def)

text \<open>
  C3, as the code has it. For the update of the keys \<open>["a","b","c"]\<close> to \<open>["c","b","a"]\<close>
  the positions are \<open>[2, 1, 0]\<close> and the computed LIS is the single index 2 of the new
  order, the item "a": a decreasing sequence keeps its last element. "a" stays in place;
  "b" is moved before "a" and then "c" before "b", which gives the order c, b, a. This
  holds for every threshold, that is on both LIS paths.
\<close>

theorem reorder_cba:
  "longestIncreasingSubsequence t
     (ArgArray (reorder_seq [''a'', ''b'', ''c''] [''c'', ''b'', ''a''])) None = Some [Number 2] \<and>
   reorder_pass t [''a'', ''b'', ''c''] [''c'', ''b'', ''a'']
     [ItemNode ''a'', ItemNode ''b'', ItemNode ''c'', EndMarker] =
   Some ([ItemNode ''c'', ItemNode ''b'', ItemNode ''a'', EndMarker], [Moved ''b'', Moved ''c''])"
  using lis_cba [of t]
  by (simp add: reorder_pass_def insertBefore_def arr_at_def)

text \<open>
  C3, as the claim states it, fails: "b" (index 1 of the new order) is not on the computed
  LIS and is moved, and "a" is not moved.
\<close>

theorem reorder_cba_counterexample:
  "\<not> (Number 1 \<in> set (the (longestIncreasingSubsequence 64
          (ArgArray (reorder_seq [''a'', ''b'', ''c''] [''c'', ''b'', ''a''])) None)) \<and>
      Moved ''b'' \<notin> set (snd (the (reorder_pass 64 [''a'', ''b'', ''c''] [''c'', ''b'', ''a'']
          [ItemNode ''a'', ItemNode ''b'', ItemNode ''c'', EndMarker]))) \<and>
      Moved ''a'' \<in> set (snd (the (reorder_pass 64 [''a'', ''b'', ''c''] [''c'', ''b'', ''a'']
          [ItemNode ''a'', ItemNode ''b'', ItemNode ''c'', EndMarker]))) \<and>
      Moved ''c'' \<in> set (snd (the (reorder_pass 64 [''a'', ''b'', ''c''] [''c'', ''b'', ''a'']
          [ItemNode ''a'', ItemNode ''b'', ItemNode ''c'', EndMarker]))))"
  using lis_cba [of 64]
  by (simp add: reorder_pass_def insertBefore_def arr_at_def)

end
